theory Spec2Isabelle
  imports Main "HOL-Library.AList"
begin

section \<open>JavaScript values used by the planner\<close>

text \<open>
  The model works on the integer fragment of JavaScript numbers: minutes, durations,
  counters and indices are \<open>int\<close> or \<open>nat\<close>. Strings are \<open>string\<close>; a \<open>char\<close> stands for one
  code unit. A thrown \<open>TypeError\<close> (a property read on \<open>undefined\<close>) is the error value
  \<open>TypeError\<close>; \<open>OutsideModel\<close> marks a run in which a value left the modelled
  fragment (a \<open>NaN\<close> start time, an \<open>undefined\<close> array element), where the model says
  nothing about the code.
\<close>

datatype js_error = TypeError | OutsideModel

text \<open>\<open>a % b\<close> of JavaScript: the remainder carries the sign of the dividend.\<close>

definition js_rem :: "int \<Rightarrow> int \<Rightarrow> int" where
  "js_rem a b = sgn a * (\<bar>a\<bar> mod \<bar>b\<bar>)"

text \<open>\<open>Math.floor(a / b)\<close> for integers \<open>a\<close> and a positive integer \<open>b\<close>.\<close>

definition js_floor_div :: "int \<Rightarrow> int \<Rightarrow> int" where
  "js_floor_div a b = a div b"

definition digit_char :: "nat \<Rightarrow> char" where
  "digit_char d = char_of (48 + d)"

definition digit_val :: "char \<Rightarrow> nat option" where
  "digit_val c = (let v = (of_char c :: nat) in if 48 \<le> v \<and> v \<le> 57 then Some (v - 48) else None)"

text \<open>\<open>n.toString()\<close> for an integer \<open>n\<close>: decimal digits, a minus sign when negative.\<close>

fun digits_of :: "nat \<Rightarrow> string" where
  "digits_of n = (if n < 10 then [digit_char n] else digits_of (n div 10) @ [digit_char (n mod 10)])"

declare digits_of.simps [simp del]

definition toString :: "int \<Rightarrow> string" where
  "toString i = (if i < 0 then CHR ''-'' # digits_of (nat (- i)) else digits_of (nat i))"

text \<open>\<open>s.padStart(2, '0')\<close>.\<close>

definition padStart2 :: "string \<Rightarrow> string" where
  "padStart2 s = replicate (2 - length s) CHR ''0'' @ s"

text \<open>
  \<open>Number(s)\<close> on the strings the model covers: a string of decimal digits is its value and
  the empty string is \<open>0\<close>. \<open>None\<close> stands for \<open>NaN\<close> and for every string outside this
  fragment (signs, blanks, fractions, exponents, hexadecimal).
\<close>

fun digits_value :: "nat \<Rightarrow> string \<Rightarrow> nat option" where
  "digits_value acc [] = Some acc"
| "digits_value acc (c # cs) =
     (case digit_val c of None \<Rightarrow> None | Some d \<Rightarrow> digits_value (10 * acc + d) cs)"

definition Number :: "string \<Rightarrow> int option" where
  "Number s = map_option int (digits_value 0 s)"

text \<open>\<open>s.split(c)\<close> for a one-character separator.\<close>

fun split_on :: "char \<Rightarrow> string \<Rightarrow> string list" where
  "split_on c [] = [[]]"
| "split_on c (x # xs) =
     (if x = c then [] # split_on c xs
      else (case split_on c xs of [] \<Rightarrow> [[x]] | y # ys \<Rightarrow> (x # y) # ys))"

section \<open>Time utilities (backend/utils/timeUtils.js)\<close>

text \<open>
  \<open>parseTime\<close>: the empty string is 0, the literal \<open>00:00\<close> is 1440, anything else is
  \<open>hours * 60 + minutes\<close> of the first two colon-separated fields. A missing second field
  is \<open>undefined\<close> and makes the sum \<open>NaN\<close>, which is \<open>None\<close> here.
\<close>

definition parseTime :: "string \<Rightarrow> int option" where
  "parseTime timeStr =
     (if timeStr = [] then Some 0
      else if timeStr = ''00:00'' then Some 1440
      else (case split_on CHR '':'' timeStr of
              hours # minutes # _ \<Rightarrow>
                (case (Number hours, Number minutes) of
                   (Some h, Some m) \<Rightarrow> Some (h * 60 + m)
                 | _ \<Rightarrow> None)
            | _ \<Rightarrow> None))"

definition toTime :: "int \<Rightarrow> string" where
  "toTime totalMinutes =
     (let minutes = js_rem totalMinutes 1440;
          hours = js_floor_div minutes 60;
          mins = js_rem minutes 60
      in padStart2 (toString hours) @ '':'' @ padStart2 (toString mins))"

definition timeDifference :: "int \<Rightarrow> int \<Rightarrow> int" where
  "timeDifference startTime endTime =
     (let diff = endTime - startTime in if diff < 0 then diff + 1440 else diff)"

definition formatDuration :: "int \<Rightarrow> string" where
  "formatDuration minutes =
     toString (js_floor_div minutes 60) @ ''h '' @ toString (js_rem minutes 60) @ ''m''"

section \<open>Path summaries (backend/services/pathfindingService.js)\<close>

text \<open>
  The objects built by \<open>summarizePath\<close>. The fields of a transfer detail carry the prefix
  \<open>td_\<close>, since a path summary has an \<open>arrival_time\<close> and a \<open>departure_time\<close> of its own.
  \<open>path_id\<close> is the field \<open>id\<close> and \<open>None\<close> is an absent field: \<open>id\<close> is set after the
  sort, \<open>transfer_options\<close> by the merge.
\<close>

record transfer_detail =
  td_station :: string
  td_arrival_time :: string
  td_departure_time :: string
  td_wait_minutes :: int

record transfer_option =
  step :: nat
  options :: "transfer_detail list"

datatype path_type = Direct | Transfer

record path_summary =
  type :: path_type
  train_sequence :: "string list"
  transfer_details :: "transfer_detail list"
  departure_time :: string
  arrival_time :: string
  total_time :: string
  total_minutes :: int
  is_fast :: bool
  transfer_count :: int
  path_id :: "nat option"
  transfer_options :: "transfer_option list option"

subsection \<open>The time-window filter\<close>

record filter_result =
  paths :: "path_summary list"
  fastestMinutes :: int

text \<open>\<open>Math.min(x, ...xs)\<close> on at least one integer argument.\<close>

definition Math_min :: "int \<Rightarrow> int list \<Rightarrow> int" where
  "Math_min x xs = fold min xs x"

definition filterPathsByTimeWindow :: "path_summary list \<Rightarrow> int \<Rightarrow> filter_result" where
  "filterPathsByTimeWindow ps windowMinutes =
     (case ps of
        [] \<Rightarrow> \<lparr>paths = [], fastestMinutes = 0\<rparr>
      | p # rest \<Rightarrow>
          (let fastest = Math_min (total_minutes p) (map total_minutes rest);
               cutoffMinutes = fastest + max windowMinutes 0;
               filteredPaths = filter (\<lambda>q. total_minutes q \<le> cutoffMinutes) ps
           in \<lparr>paths = filteredPaths, fastestMinutes = fastest\<rparr>))"

subsection \<open>Merging paths that share a train sequence\<close>

text \<open>
  \<open>mergePathsByTrainSequence\<close> groups the entries under the key
  \<open>JSON.stringify([train_sequence, type, transferCount, departure_time, arrival_time,
  total_minutes])\<close>. On values of these types two keys are the same string exactly when the
  six components are equal, so the key is the tuple. The \<open>Map\<close> together with
  \<open>orderedKeys\<close> is an association list in insertion order; a group holds the copied
  entry (\<open>base\<close>) and its scratch field \<open>_transfer_option_lists\<close> (\<open>None\<close> when the field is
  absent). \<open>JSON.parse(JSON.stringify(x))\<close> is the identity on these values.
\<close>

type_synonym merge_key = "string list \<times> path_type \<times> int \<times> string \<times> string \<times> int"

record merge_group =
  base :: path_summary
  option_lists :: "transfer_detail list list option"

text \<open>\<open>entry.transfer_count || (entry.transfer_details || []).length\<close>.\<close>

definition transferCount_of :: "path_summary \<Rightarrow> int" where
  "transferCount_of entry =
     (if transfer_count entry \<noteq> 0 then transfer_count entry
      else int (length (transfer_details entry)))"

definition merge_key_of :: "path_summary \<Rightarrow> merge_key" where
  "merge_key_of entry =
     (train_sequence entry, type entry, transferCount_of entry,
      departure_time entry, arrival_time entry, total_minutes entry)"

text \<open>
  The loop of the first entry of a group: \<open>optionLists[idx].push(detail)\<close>, which throws
  when \<open>optionLists[idx]\<close> is \<open>undefined\<close>.
\<close>

fun push_first ::
  "transfer_detail list list \<Rightarrow> nat \<Rightarrow> transfer_detail list \<Rightarrow> js_error + transfer_detail list list"
where
  "push_first optionLists idx [] = Inr optionLists"
| "push_first optionLists idx (detail # details) =
     (if idx < length optionLists
      then push_first (optionLists[idx := optionLists ! idx @ [detail]]) (Suc idx) details
      else Inl TypeError)"

text \<open>
  The loop of a later entry of a group: a list is appended when \<open>idx\<close> is past the end, and
  the detail is pushed unless an equal one is already there.
\<close>

fun add_options ::
  "transfer_detail list list \<Rightarrow> nat \<Rightarrow> transfer_detail list \<Rightarrow> js_error + transfer_detail list list"
where
  "add_options optionLists idx [] = Inr optionLists"
| "add_options optionLists idx (detail # details) =
     (let grown = (if idx \<ge> length optionLists then optionLists @ [[]] else optionLists)
      in if idx < length grown
         then add_options
                (if detail \<in> set (grown ! idx) then grown
                 else grown[idx := grown ! idx @ [detail]])
                (Suc idx) details
         else Inl TypeError)"

definition merge_step ::
  "(merge_key \<times> merge_group) list \<Rightarrow> path_summary \<Rightarrow> js_error + (merge_key \<times> merge_group) list"
where
  "merge_step grouped entry =
     (let transferCount = transferCount_of entry;
          key = merge_key_of entry
      in case map_of grouped key of
           None \<Rightarrow>
             (if transferCount > 0
              then (case push_first (replicate (nat transferCount) []) 0 (transfer_details entry) of
                      Inl e \<Rightarrow> Inl e
                    | Inr optionLists \<Rightarrow>
                        Inr (grouped @ [(key, \<lparr>base = entry, option_lists = Some optionLists\<rparr>)]))
              else Inr (grouped @ [(key, \<lparr>base = entry, option_lists = None\<rparr>)]))
         | Some g \<Rightarrow>
             (if transferCount = 0 then Inr grouped
              else (case add_options
                           (case option_lists g of
                              Some optionLists \<Rightarrow> optionLists
                            | None \<Rightarrow> replicate (nat transferCount) [])
                           0 (transfer_details entry) of
                      Inl e \<Rightarrow> Inl e
                    | Inr optionLists \<Rightarrow>
                        Inr (AList.update key (g\<lparr>option_lists := Some optionLists\<rparr>) grouped))))"

fun merge_loop ::
  "(merge_key \<times> merge_group) list \<Rightarrow> path_summary list \<Rightarrow> js_error + (merge_key \<times> merge_group) list"
where
  "merge_loop grouped [] = Inr grouped"
| "merge_loop grouped (entry # entries) =
     (case merge_step grouped entry of
        Inl e \<Rightarrow> Inl e
      | Inr grouped' \<Rightarrow> merge_loop grouped' entries)"

text \<open>
  The closing loop: with option lists present, \<open>transfer_options\<close> numbers the lists from 1
  and drops the empty ones, and \<open>transfer_details\<close> becomes the first element of each
  non-empty list.
\<close>

definition finish_group :: "merge_group \<Rightarrow> path_summary" where
  "finish_group g =
     (case option_lists g of
        None \<Rightarrow> base g
      | Some optionLists \<Rightarrow>
          (base g)
            \<lparr>transfer_details := map hd (filter (\<lambda>optionList. length optionList > 0) optionLists),
             transfer_options :=
               Some (filter (\<lambda>option. length (options option) > 0)
                       (map (\<lambda>(idx, optionList). \<lparr>step = idx + 1, options = optionList\<rparr>)
                          (enumerate 0 optionLists)))\<rparr>)"

definition mergePathsByTrainSequence :: "path_summary list \<Rightarrow> js_error + path_summary list" where
  "mergePathsByTrainSequence ps =
     (case merge_loop [] ps of
        Inl e \<Rightarrow> Inl e
      | Inr grouped \<Rightarrow> Inr (map (\<lambda>(key, g). finish_group g) grouped))"

text \<open>
  What a second merge leaves of a merged path: each transfer step keeps the one option
  recorded in \<open>transfer_details\<close>.
\<close>

definition representative_options :: "path_summary \<Rightarrow> path_summary" where
  "representative_options m =
     (if transfer_details m = [] then m
      else m\<lparr>transfer_options :=
               Some (map (\<lambda>(idx, detail). \<lparr>step = idx + 1, options = [detail]\<rparr>)
                       (enumerate 0 (transfer_details m)))\<rparr>)"

text \<open>Notions used to reason about the merge: a path whose \<open>transfer_count\<close> is the
  number of its transfer details, and the shape of the groups built from such paths.\<close>

definition counted :: "path_summary \<Rightarrow> bool" where
  "counted p \<longleftrightarrow> transfer_count p = int (length (transfer_details p))"

definition group_ok :: "merge_key \<times> merge_group \<Rightarrow> bool" where
  "group_ok kg =
     (case kg of (k, g) \<Rightarrow>
        k = merge_key_of (base g) \<and> counted (base g) \<and>
        (case option_lists g of
           None \<Rightarrow> transfer_details (base g) = []
         | Some ol \<Rightarrow> transfer_details (base g) \<noteq> [] \<and> map hd ol = transfer_details (base g) \<and> [] \<notin> set ol))"

definition first_group :: "path_summary \<Rightarrow> merge_group" where
  "first_group m =
     \<lparr>base = m,
      option_lists = (if transfer_details m = [] then None
                      else Some (map (\<lambda>d. [d]) (transfer_details m)))\<rparr>"

definition groups_ok :: "(merge_key \<times> merge_group) list \<Rightarrow> bool" where
  "groups_ok grouped \<longleftrightarrow> distinct (map fst grouped) \<and> (\<forall>kg \<in> set grouped. group_ok kg)"

subsection \<open>The enumerator\<close>

text \<open>
  A node is the array \<open>[station, train, time]\<close>. An adjacency entry is
  \<open>{to, type, duration}\<close>, an entry of \<open>edgeHistory\<close> is \<open>{from, to, type, duration}\<close>;
  their fields carry the prefixes \<open>e_\<close> and \<open>h_\<close>. Objects used as dictionaries
  (\<open>adjacency\<close>, \<open>trainInfo\<close>, \<open>directionMap\<close>) are maps; \<open>trainInfo\<close> gives the truth
  value of \<open>is_fast\<close> of a train that has an entry.
\<close>

type_synonym node = "string \<times> string \<times> string"

definition node_station :: "node \<Rightarrow> string" where "node_station n = fst n"
definition node_train :: "node \<Rightarrow> string" where "node_train n = fst (snd n)"
definition node_time :: "node \<Rightarrow> string" where "node_time n = snd (snd n)"

record adj_edge =
  e_to :: nat
  e_type :: string
  e_duration :: int

record hist_edge =
  h_from :: nat
  h_to :: nat
  h_type :: string
  h_duration :: int

text \<open>
  What the closure \<open>dfs\<close> reads from \<open>findAllPaths\<close> and its options, and what it writes
  on the service: \<open>this.paths\<close> and \<open>this.stats\<close>.
\<close>

record search =
  nodes :: "node list"
  adjacency :: "nat \<Rightarrow> adj_edge list option"
  endStation :: string
  trainInfo :: "string \<Rightarrow> bool option"
  directionMap :: "(string \<Rightarrow> int list option) option"
  maxTransfers :: int
  allowSameStationConsecutiveTransfers :: bool

record service_state =
  service_paths :: "path_summary list"
  skipped_same_station_transfers :: nat

text \<open>
  \<open>summarizePath\<close>: the loop over the edge history, then the summary. \<open>nodes[edge.from]\<close>
  of an index out of range is \<open>undefined\<close>, and reading its station throws.
\<close>

fun summarize_loop ::
  "node list \<Rightarrow> hist_edge list \<Rightarrow> int \<Rightarrow> transfer_detail list \<Rightarrow> js_error + int \<times> transfer_detail list"
where
  "summarize_loop ns [] timeline transferDetails = Inr (timeline, transferDetails)"
| "summarize_loop ns (edge # edges) timeline transferDetails =
     (if h_type edge = ''transfer''
      then (if h_from edge < length ns
            then summarize_loop ns edges (timeline + h_duration edge)
                   (transferDetails @
                    [\<lparr>td_station = node_station (ns ! h_from edge),
                      td_arrival_time = toTime timeline,
                      td_departure_time = toTime (timeline + h_duration edge),
                      td_wait_minutes = h_duration edge\<rparr>])
            else Inl TypeError)
      else summarize_loop ns edges (timeline + h_duration edge) transferDetails)"

definition summarizePath ::
  "node list \<Rightarrow> hist_edge list \<Rightarrow> string list \<Rightarrow> int \<Rightarrow> int \<Rightarrow> (string \<Rightarrow> bool option)
     \<Rightarrow> js_error + path_summary"
where
  "summarizePath ns edgeHistory trainSequence startTime endTime ti =
     (case summarize_loop ns edgeHistory startTime [] of
        Inl e \<Rightarrow> Inl e
      | Inr (walked, transferDetails) \<Rightarrow>
          (let timeline = (if walked \<noteq> endTime then endTime else walked);
               difference = timeline - startTime;
               totalMinutes = (if difference < 0 then difference + 1440 else difference);
               isFast = list_ex (\<lambda>trainId. ti trainId = Some True) trainSequence
           in Inr \<lparr>type = (if length transferDetails > 0 then Transfer else Direct),
                   train_sequence = trainSequence,
                   transfer_details = transferDetails,
                   departure_time = toTime startTime,
                   arrival_time = toTime timeline,
                   total_time = formatDuration totalMinutes,
                   total_minutes = totalMinutes,
                   is_fast = isFast,
                   transfer_count = int (length transferDetails),
                   path_id = None,
                   transfer_options = None\<rparr>))"

text \<open>
  The directionality check: \<open>opposed\<close> is the inner loop over
  \<open>j < Math.min(a.length, b.length)\<close>, \<open>direction_invalid\<close> the outer loop over consecutive
  trains, skipping a pair when either train has no vector.
\<close>

definition opposed :: "int list \<Rightarrow> int list \<Rightarrow> bool" where
  "opposed a b = list_ex (\<lambda>(x, y). x \<noteq> 0 \<and> y \<noteq> 0 \<and> x = - y) (zip a b)"

fun direction_invalid :: "(string \<Rightarrow> int list option) \<Rightarrow> string list \<Rightarrow> bool" where
  "direction_invalid dm (s # t # rest) =
     (case (dm s, dm t) of
        (Some a, Some b) \<Rightarrow> (if opposed a b then True else direction_invalid dm (t # rest))
      | _ \<Rightarrow> direction_invalid dm (t # rest))"
| "direction_invalid dm _ = False"

text \<open>
  The pieces of the loop over \<open>neighbors\<close>. \<open>truthy\<close> is the truth value of
  \<open>lastTransferStation\<close> (\<open>null\<close> and the empty string are falsy). \<open>emit\<close> is the end of the
  destination branch: the summary is pushed unless the directionality check fails.
\<close>

definition neighbors :: "search \<Rightarrow> nat \<Rightarrow> adj_edge list" where
  "neighbors C currentIdx = (case adjacency C currentIdx of None \<Rightarrow> [] | Some es \<Rightarrow> es)"

definition isTransferNow :: "search \<Rightarrow> nat \<Rightarrow> adj_edge \<Rightarrow> bool" where
  "isTransferNow C currentIdx edge \<longleftrightarrow>
     e_type edge = ''transfer'' \<or>
     node_train (nodes C ! e_to edge) \<noteq> node_train (nodes C ! currentIdx)"

definition truthy :: "string option \<Rightarrow> bool" where
  "truthy v = (case v of None \<Rightarrow> False | Some s \<Rightarrow> s \<noteq> [])"

definition skip_same_station :: "search \<Rightarrow> nat \<Rightarrow> string option \<Rightarrow> adj_edge \<Rightarrow> bool" where
  "skip_same_station C currentIdx lastTransferStation edge \<longleftrightarrow>
     isTransferNow C currentIdx edge \<and> \<not> allowSameStationConsecutiveTransfers C \<and>
     truthy lastTransferStation \<and>
     Some (node_station (nodes C ! currentIdx)) = lastTransferStation"

definition nextTransfers :: "search \<Rightarrow> nat \<Rightarrow> int \<Rightarrow> adj_edge \<Rightarrow> int" where
  "nextTransfers C currentIdx transfersUsed edge =
     (if isTransferNow C currentIdx edge then transfersUsed + 1 else transfersUsed)"

definition nextTrainSequence :: "string list \<Rightarrow> string \<Rightarrow> string list" where
  "nextTrainSequence trainSequence neighborTrain =
     (if trainSequence \<noteq> [] \<and> neighborTrain = last trainSequence then trainSequence
      else trainSequence @ [neighborTrain])"

definition history_entry :: "nat \<Rightarrow> adj_edge \<Rightarrow> hist_edge" where
  "history_entry currentIdx edge =
     \<lparr>h_from = currentIdx, h_to = e_to edge, h_type = e_type edge, h_duration = e_duration edge\<rparr>"

definition emit :: "search \<Rightarrow> path_summary \<Rightarrow> service_state \<Rightarrow> service_state" where
  "emit C pathSummary S =
     (if (case directionMap C of
            None \<Rightarrow> False
          | Some dm \<Rightarrow> transfer_count pathSummary > 0 \<and>
                       direction_invalid dm (train_sequence pathSummary))
      then S
      else S\<lparr>service_paths := service_paths S @ [pathSummary]\<rparr>)"

text \<open>
  \<open>dfs\<close> and its loop \<open>explore\<close> over the remaining neighbours. \<open>path\<close> and \<open>edgeHistory\<close>
  are pushed before the recursive call and popped after it, so the loop continues with the
  lists it had. The search terminates because every call visits a node of the graph that
  is not yet on \<open>path\<close>.
\<close>

definition unvisited :: "search \<Rightarrow> nat list \<Rightarrow> nat" where
  "unvisited C path = card ({..<length (nodes C)} - set path)"

lemma unvisited_less:
  "i < length (nodes C) \<Longrightarrow> i \<notin> set path \<Longrightarrow> unvisited C (path @ [i]) < unvisited C path"
proof -
  assume i: "i < length (nodes C)" and n: "i \<notin> set path"
  have "{..<length (nodes C)} - set (path @ [i]) \<subset> {..<length (nodes C)} - set path"
    using i n by auto
  then show ?thesis
    unfolding unvisited_def by (intro psubset_card_mono) auto
qed

function dfs ::
  "search \<Rightarrow> nat \<Rightarrow> int \<Rightarrow> int \<Rightarrow> nat list \<Rightarrow> hist_edge list \<Rightarrow> string list \<Rightarrow> int
     \<Rightarrow> string option \<Rightarrow> service_state \<Rightarrow> js_error + service_state"
and explore ::
  "search \<Rightarrow> adj_edge list \<Rightarrow> nat \<Rightarrow> int \<Rightarrow> int \<Rightarrow> nat list \<Rightarrow> hist_edge list \<Rightarrow> string list
     \<Rightarrow> int \<Rightarrow> string option \<Rightarrow> service_state \<Rightarrow> js_error + service_state"
where
  "dfs C currentIdx currentTime transfersUsed path edgeHistory trainSequence startTime
       lastTransferStation S =
     (if \<not> currentIdx < length (nodes C) then Inl TypeError
      else if node_station (nodes C ! currentIdx) = endStation C \<and> length edgeHistory > 0
      then (case summarizePath (nodes C) edgeHistory trainSequence startTime currentTime
                   (trainInfo C) of
              Inl e \<Rightarrow> Inl e
            | Inr pathSummary \<Rightarrow> Inr (emit C pathSummary S))
      else explore C (neighbors C currentIdx) currentIdx currentTime transfersUsed path
             edgeHistory trainSequence startTime lastTransferStation S)"
| "explore C [] currentIdx currentTime transfersUsed path edgeHistory trainSequence startTime
       lastTransferStation S = Inr S"
| "explore C (edge # edges) currentIdx currentTime transfersUsed path edgeHistory trainSequence
       startTime lastTransferStation S =
     (if e_to edge \<in> set path
      then explore C edges currentIdx currentTime transfersUsed path edgeHistory trainSequence
             startTime lastTransferStation S
      else if \<not> (e_to edge < length (nodes C) \<and> currentIdx < length (nodes C))
      then Inl TypeError
      else if e_duration edge \<le> 0
      then explore C edges currentIdx currentTime transfersUsed path edgeHistory trainSequence
             startTime lastTransferStation S
      else if skip_same_station C currentIdx lastTransferStation edge
      then explore C edges currentIdx currentTime transfersUsed path edgeHistory trainSequence
             startTime lastTransferStation
             (S\<lparr>skipped_same_station_transfers := skipped_same_station_transfers S + 1\<rparr>)
      else if nextTransfers C currentIdx transfersUsed edge > maxTransfers C
      then explore C edges currentIdx currentTime transfersUsed path edgeHistory trainSequence
             startTime lastTransferStation S
      else (case dfs C (e_to edge) (currentTime + e_duration edge)
                   (nextTransfers C currentIdx transfersUsed edge)
                   (path @ [e_to edge])
                   (edgeHistory @ [history_entry currentIdx edge])
                   (nextTrainSequence trainSequence (node_train (nodes C ! e_to edge)))
                   startTime
                   (if isTransferNow C currentIdx edge
                    then Some (node_station (nodes C ! currentIdx))
                    else lastTransferStation)
                   S of
              Inl e \<Rightarrow> Inl e
            | Inr S' \<Rightarrow>
                explore C edges currentIdx currentTime transfersUsed path edgeHistory
                  trainSequence startTime lastTransferStation S'))"
  by pat_completeness auto

termination
  apply (relation "inv_image (measure id <*lex*> measure id)
      (\<lambda>x. case x of
          Inl (C, currentIdx, currentTime, transfersUsed, path, rest) \<Rightarrow>
            (unvisited C path, Suc (length (neighbors C currentIdx)))
        | Inr (C, edges, currentIdx, currentTime, transfersUsed, path, rest) \<Rightarrow>
            (unvisited C path, length edges))")
  apply (auto simp: unvisited_less)
  done

declare dfs.simps [simp del] explore.simps(2) [simp del]

text \<open>
  \<open>findAllPaths\<close>: the options with their defaults, the start nodes, one search per start
  node, the sort and the ids. A start time that \<open>parseTime\<close> does not give as an integer
  is \<open>OutsideModel\<close>. \<open>localeCompare\<close> compares code units, which is the order of the
  locale on the zero-padded times \<open>toTime\<close> writes; \<open>array_sort\<close> is the stable sort of
  \<open>Array.prototype.sort\<close> for a comparator that is a total preorder.
\<close>

record find_options =
  opt_maxTransfers :: "int option"
  opt_allowSameStationConsecutiveTransfers :: "bool option"

fun start_loop :: "search \<Rightarrow> nat list \<Rightarrow> service_state \<Rightarrow> js_error + service_state" where
  "start_loop C [] S = Inr S"
| "start_loop C (startIdx # rest) S =
     (if \<not> startIdx < length (nodes C) then Inl TypeError
      else (case parseTime (node_time (nodes C ! startIdx)) of
              None \<Rightarrow> Inl OutsideModel
            | Some startTime \<Rightarrow>
                (case dfs C startIdx startTime 0 [startIdx] []
                        [node_train (nodes C ! startIdx)] startTime None S of
                   Inl e \<Rightarrow> Inl e
                 | Inr S' \<Rightarrow> start_loop C rest S')))"

fun localeCompare :: "string \<Rightarrow> string \<Rightarrow> int" where
  "localeCompare [] [] = 0"
| "localeCompare [] (y # ys) = - 1"
| "localeCompare (x # xs) [] = 1"
| "localeCompare (x # xs) (y # ys) =
     (if (of_char x :: nat) < of_char y then - 1
      else if (of_char y :: nat) < of_char x then 1
      else localeCompare xs ys)"

definition compare_paths :: "path_summary \<Rightarrow> path_summary \<Rightarrow> int" where
  "compare_paths a b =
     (if total_minutes a \<noteq> total_minutes b then total_minutes a - total_minutes b
      else localeCompare (departure_time a) (departure_time b))"

fun insert_sorted :: "('a \<Rightarrow> 'a \<Rightarrow> int) \<Rightarrow> 'a \<Rightarrow> 'a list \<Rightarrow> 'a list" where
  "insert_sorted cmp x [] = [x]"
| "insert_sorted cmp x (y # ys) =
     (if cmp x y \<le> 0 then x # y # ys else y # insert_sorted cmp x ys)"

definition array_sort :: "('a \<Rightarrow> 'a \<Rightarrow> int) \<Rightarrow> 'a list \<Rightarrow> 'a list" where
  "array_sort cmp xs = foldr (insert_sorted cmp) xs []"

definition assign_ids :: "path_summary list \<Rightarrow> path_summary list" where
  "assign_ids ps = map (\<lambda>(idx, p). p\<lparr>path_id := Some (idx + 1)\<rparr>) (enumerate 0 ps)"

definition startNodes :: "node list \<Rightarrow> string \<Rightarrow> nat list" where
  "startNodes ns startStation = filter (\<lambda>idx. node_station (ns ! idx) = startStation) [0..<length ns]"

definition search_of ::
  "node list \<Rightarrow> (nat \<Rightarrow> adj_edge list option) \<Rightarrow> string \<Rightarrow> (string \<Rightarrow> bool option)
     \<Rightarrow> (string \<Rightarrow> int list option) option \<Rightarrow> find_options \<Rightarrow> search"
where
  "search_of ns adj endSt ti dm opts =
     \<lparr>nodes = ns, adjacency = adj, endStation = endSt, trainInfo = ti, directionMap = dm,
      maxTransfers = (case opt_maxTransfers opts of None \<Rightarrow> 2 | Some n \<Rightarrow> n),
      allowSameStationConsecutiveTransfers =
        (case opt_allowSameStationConsecutiveTransfers opts of None \<Rightarrow> False | Some b \<Rightarrow> b)\<rparr>"

definition run_search ::
  "node list \<Rightarrow> (nat \<Rightarrow> adj_edge list option) \<Rightarrow> string \<Rightarrow> string \<Rightarrow> (string \<Rightarrow> bool option)
     \<Rightarrow> (string \<Rightarrow> int list option) option \<Rightarrow> find_options \<Rightarrow> js_error + service_state"
where
  "run_search ns adj startStation endSt ti dm opts =
     (let C = search_of ns adj endSt ti dm opts;
          fresh = \<lparr>service_paths = [], skipped_same_station_transfers = 0\<rparr>
      in if length (startNodes ns startStation) = 0 then Inr fresh
         else (case start_loop C (startNodes ns startStation) fresh of
                 Inl e \<Rightarrow> Inl e
               | Inr S \<Rightarrow>
                   Inr (S\<lparr>service_paths :=
                            assign_ids (array_sort compare_paths (service_paths S))\<rparr>)))"

definition findAllPaths ::
  "node list \<Rightarrow> (nat \<Rightarrow> adj_edge list option) \<Rightarrow> string \<Rightarrow> string \<Rightarrow> (string \<Rightarrow> bool option)
     \<Rightarrow> (string \<Rightarrow> int list option) option \<Rightarrow> find_options \<Rightarrow> js_error + path_summary list"
where
  "findAllPaths ns adj startStation endSt ti dm opts =
     (case run_search ns adj startStation endSt ti dm opts of
        Inl e \<Rightarrow> Inl e
      | Inr S \<Rightarrow> Inr (service_paths S))"

text \<open>
  Notions used to reason about the search: the edge history as a walk in the graph from
  the start node, the train sequence and duration along it, and the summaries the
  destination branch can push for it.
\<close>

definition end_of :: "nat \<Rightarrow> hist_edge list \<Rightarrow> nat" where
  "end_of s eh = (if eh = [] then s else h_to (last eh))"

definition edge_of :: "hist_edge \<Rightarrow> adj_edge" where
  "edge_of h = \<lparr>e_to = h_to h, e_type = h_type h, e_duration = h_duration h\<rparr>"

fun chain :: "search \<Rightarrow> nat \<Rightarrow> hist_edge list \<Rightarrow> bool" where
  "chain C s [] = True"
| "chain C s (h # hs) =
     (h_from h = s \<and> s < length (nodes C) \<and> h_to h < length (nodes C) \<and> 0 < h_duration h \<and>
      edge_of h \<in> set (neighbors C s) \<and> chain C (h_to h) hs)"

definition trains_along :: "node list \<Rightarrow> nat \<Rightarrow> hist_edge list \<Rightarrow> string list" where
  "trains_along ns s eh =
     foldl (\<lambda>ts h. nextTrainSequence ts (node_train (ns ! h_to h))) [node_train (ns ! s)] eh"

definition total_duration :: "hist_edge list \<Rightarrow> int" where
  "total_duration eh = sum_list (map h_duration eh)"

definition direction_checked :: "search \<Rightarrow> path_summary \<Rightarrow> bool" where
  "direction_checked C p =
     (case directionMap C of
        None \<Rightarrow> True
      | Some dm \<Rightarrow> \<not> (transfer_count p > 0 \<and> direction_invalid dm (train_sequence p)))"

definition emitted_by :: "search \<Rightarrow> nat \<Rightarrow> int \<Rightarrow> hist_edge list \<Rightarrow> path_summary \<Rightarrow> bool" where
  "emitted_by C s startTime eh p \<longleftrightarrow>
     eh \<noteq> [] \<and> chain C s eh \<and>
     node_station (nodes C ! end_of s eh) = endStation C \<and>
     summarizePath (nodes C) eh (trains_along (nodes C) s eh) startTime
       (startTime + total_duration eh) (trainInfo C) = Inr p \<and>
     direction_checked C p"

definition grows_by :: "(path_summary \<Rightarrow> bool) \<Rightarrow> service_state \<Rightarrow> service_state \<Rightarrow> bool" where
  "grows_by Q S S' \<longleftrightarrow> (\<exists>new. service_paths S' = service_paths S @ new \<and> (\<forall>p \<in> set new. Q p))"

text \<open>
  What \<open>findAllPaths\<close> returns, traced back to the search: the summary \<open>p\<close> was pushed for
  the edge history \<open>eh\<close> of a walk from the start node \<open>s\<close>, whose time parses to
  \<open>startTime\<close>. \<open>transfers_change_trains\<close> is the property of a time-expanded graph that an
  adjacency entry has type \<open>transfer\<close> exactly when it joins nodes of different trains.
\<close>

definition enumerated ::
  "node list \<Rightarrow> (nat \<Rightarrow> adj_edge list option) \<Rightarrow> string \<Rightarrow> string \<Rightarrow> (string \<Rightarrow> bool option)
     \<Rightarrow> (string \<Rightarrow> int list option) option \<Rightarrow> find_options \<Rightarrow> nat \<Rightarrow> int \<Rightarrow> hist_edge list
     \<Rightarrow> path_summary \<Rightarrow> bool"
where
  "enumerated ns adj startStation endSt ti dm opts s startTime eh p \<longleftrightarrow>
     s < length ns \<and> node_station (ns ! s) = startStation \<and>
     parseTime (node_time (ns ! s)) = Some startTime \<and>
     emitted_by (search_of ns adj endSt ti dm opts) s startTime eh p"

definition transfers_change_trains :: "node list \<Rightarrow> (nat \<Rightarrow> adj_edge list option) \<Rightarrow> bool" where
  "transfers_change_trains ns adj \<longleftrightarrow>
     (\<forall>i \<in> set [0..<length ns].
        \<forall>e \<in> set (case adj i of None \<Rightarrow> [] | Some es \<Rightarrow> es).
          e_to e < length ns \<longrightarrow>
          (e_type e = ''transfer'') = (node_train (ns ! e_to e) \<noteq> node_train (ns ! i)))"

section \<open>The query facade (backend/config/config.js, backend/middleware/validation.js, backend/routes/pathfinding.js)\<close>

subsection \<open>The values of a request body\<close>

text \<open>
  A request body is what \<open>JSON.parse\<close> made of it. A number is given in the form in which
  \<open>Number::toString\<close> reads it: \<open>Finite negative s n\<close> is the number, negated when
  \<open>negative\<close>, whose decimal digits are those of \<open>s\<close> with the decimal point \<open>n\<close> places
  after the start of the first digit (so 5.9 is \<open>Finite False 59 1\<close>, 1000 is
  \<open>Finite False 1 4\<close> or \<open>Finite False 1000 4\<close>, and both zeros are \<open>s = 0\<close>);
  \<open>Infinity\<close> is what an overflowing literal parses to. A body holds doubles, so only
  their forms occur in it; \<open>number_of_int\<close> is the number of an integer that a double
  holds exactly.
\<close>

datatype js_number = Finite bool nat int | Infinity bool

datatype json =
    JNull
  | JBoolean bool
  | JNumber js_number
  | JString string
  | JArray "json list"
  | JObject "(string \<times> json) list"

definition number_of_int :: "int \<Rightarrow> js_number" where
  "number_of_int i = Finite (i < 0) (nat \<bar>i\<bar>) (int (length (digits_of (nat \<bar>i\<bar>))))"

text \<open>
  \<open>Number::toString\<close> in radix 10. With \<open>k\<close> digits left once the trailing zeros are
  dropped: an integer of at most 21 digits is written out in full, a number with
  \<open>0 < n \<le> 21\<close> has its point after \<open>n\<close> digits, one with \<open>-6 < n \<le> 0\<close> starts \<open>0.\<close>, and
  every other number is written with an exponent.
\<close>

definition strip_zeros :: "string \<Rightarrow> string" where
  "strip_zeros ds = rev (dropWhile (\<lambda>c. c = CHR ''0'') (rev ds))"

definition Number_toString :: "js_number \<Rightarrow> string" where
  "Number_toString x =
     (case x of
        Infinity negative \<Rightarrow> (if negative then ''-Infinity'' else ''Infinity'')
      | Finite negative s n \<Rightarrow>
          if s = 0 then ''0''
          else (if negative then ''-'' else []) @
               (let ds = strip_zeros (digits_of s);
                    k = int (length ds)
                in if k \<le> n \<and> n \<le> 21 then ds @ replicate (nat (n - k)) CHR ''0''
                   else if 0 < n \<and> n \<le> 21 then take (nat n) ds @ ''.'' @ drop (nat n) ds
                   else if - 6 < n \<and> n \<le> 0 then ''0.'' @ replicate (nat (- n)) CHR ''0'' @ ds
                   else (let e = n - 1;
                             exponent = (if e < 0 then ''-'' else ''+'') @ digits_of (nat \<bar>e\<bar>)
                         in if k = 1 then ds @ ''e'' @ exponent
                            else take 1 ds @ ''.'' @ drop 1 ds @ ''e'' @ exponent)))"

text \<open>
  \<open>ToString\<close> of a parsed value, as \<open>parseInt\<close> applies it to its argument. An array is
  joined with commas, \<open>null\<close> elements giving the empty string. An object is
  \<open>[object Object]\<close>, unless it has an entry \<open>toString\<close>: that entry is not a function, the
  inherited \<open>valueOf\<close> returns the object itself, and the conversion throws a
  \<open>TypeError\<close>.
\<close>

fun ToString :: "json \<Rightarrow> js_error + string"
and join_elements :: "json list \<Rightarrow> js_error + string"
where
  "ToString JNull = Inr ''null''"
| "ToString (JBoolean b) = Inr (if b then ''true'' else ''false'')"
| "ToString (JNumber x) = Inr (Number_toString x)"
| "ToString (JString s) = Inr s"
| "ToString (JArray xs) = join_elements xs"
| "ToString (JObject entries) =
     (if ''toString'' \<in> set (map fst entries) then Inl TypeError else Inr ''[object Object]'')"
| "join_elements [] = Inr []"
| "join_elements (x # xs) =
     (case (case x of JNull \<Rightarrow> Inr [] | _ \<Rightarrow> ToString x) of
        Inl e \<Rightarrow> Inl e
      | Inr s \<Rightarrow>
          if xs = [] then Inr s
          else (case join_elements xs of
                  Inl e \<Rightarrow> Inl e
                | Inr rest \<Rightarrow> Inr (s @ '','' @ rest)))"

text \<open>\<open>Boolean(v)\<close> of a parsed value.\<close>

definition ToBoolean :: "json \<Rightarrow> bool" where
  "ToBoolean v =
     (case v of
        JNull \<Rightarrow> False
      | JBoolean b \<Rightarrow> b
      | JNumber x \<Rightarrow> (case x of Finite negative s n \<Rightarrow> s \<noteq> 0 | Infinity negative \<Rightarrow> True)
      | JString s \<Rightarrow> s \<noteq> []
      | JArray xs \<Rightarrow> True
      | JObject entries \<Rightarrow> True)"

text \<open>
  The integer a number is, when it is one: the digits left of the point, when no digit
  other than 0 is right of it.
\<close>

definition integer_of :: "json \<Rightarrow> int option" where
  "integer_of v =
     (case v of
        JNumber (Finite negative s n) \<Rightarrow>
          if s = 0 then Some 0
          else (let ds = strip_zeros (digits_of s);
                    k = int (length ds)
                in if k \<le> n
                   then (case digits_value 0 (ds @ replicate (nat (n - k)) CHR ''0'') of
                           None \<Rightarrow> None
                         | Some m \<Rightarrow> Some (if negative then - int m else int m))
                   else None)
      | _ \<Rightarrow> None)"

text \<open>
  \<open>parseInt(string)\<close> with no radix: leading white space is skipped, a sign is read, a
  prefix \<open>0x\<close> or \<open>0X\<close> selects radix 16, and the longest run of digits of the radix is the
  value; \<open>None\<close> is \<open>NaN\<close>, the result when there is no digit. The value is the exact
  integer: the callers compare it with 0 and with a bound below \<open>2 ^ 53\<close>, and the
  rounding of the code is monotone and leaves such bounds fixed.
\<close>

definition is_space :: "char \<Rightarrow> bool" where
  "is_space c \<longleftrightarrow> (of_char c :: nat) \<in> {9, 10, 11, 12, 13, 32, 160}"

definition hex_val :: "char \<Rightarrow> nat option" where
  "hex_val c =
     (let v = (of_char c :: nat)
      in if 48 \<le> v \<and> v \<le> 57 then Some (v - 48)
         else if 97 \<le> v \<and> v \<le> 102 then Some (v - 87)
         else if 65 \<le> v \<and> v \<le> 70 then Some (v - 55)
         else None)"

fun radix_value :: "nat \<Rightarrow> (char \<Rightarrow> nat option) \<Rightarrow> nat \<Rightarrow> string \<Rightarrow> nat" where
  "radix_value R digit acc [] = acc"
| "radix_value R digit acc (c # cs) =
     radix_value R digit (R * acc + (case digit c of None \<Rightarrow> 0 | Some d \<Rightarrow> d)) cs"

definition parseInt :: "string \<Rightarrow> int option" where
  "parseInt string =
     (let S = dropWhile is_space string;
          negative = (take 1 S = ''-'');
          S1 = (if take 1 S = ''+'' \<or> take 1 S = ''-'' then drop 1 S else S);
          hex = (take 2 S1 = ''0x'' \<or> take 2 S1 = ''0X'');
          S2 = (if hex then drop 2 S1 else S1);
          digit = (if hex then hex_val else digit_val);
          Z = takeWhile (\<lambda>c. digit c \<noteq> None) S2
      in if Z = [] then None
         else Some ((if negative then - 1 else 1) *
                    int (radix_value (if hex then 16 else 10) digit 0 Z)))"

text \<open>\<open>s.trim()\<close>.\<close>

definition trim :: "string \<Rightarrow> string" where
  "trim s = rev (dropWhile is_space (rev (dropWhile is_space s)))"

subsection \<open>The configuration\<close>

text \<open>
  \<open>config.js\<close> builds the configuration from the environment (\<open>process.env\<close> once
  \<open>dotenv\<close> has filled it: a variable is a string or is not set) and validates it while the
  module loads; when the validation finds an error the process exits. \<open>parseInt\<close> of a
  variable that is not set reads the string \<open>undefined\<close>. The two file paths have non-empty
  defaults, so their checks find nothing. The port is the string of \<open>PORT\<close> or the number
  3000; the comparison of a string with the bounds converts it with \<open>Number\<close>, and a port
  that is not a string of decimal digits is outside the model (\<open>Unmodelled\<close>).
\<close>

record environment =
  PORT :: "string option"
  MAX_TRANSFERS :: "string option"
  TIME_WINDOW_MINUTES :: "string option"
  ALLOW_SAME_STATION_TRANSFERS :: "string option"

record configuration =
  server_port :: "string + int"
  algorithm_maxTransfers :: int
  algorithm_timeWindowMinutes :: int
  algorithm_allowSameStationTransfers :: bool
  validation_maxStationNameLength :: nat
  validation_minStationNameLength :: nat
  validation_maxTransfers :: int
  validation_maxTimeWindowMinutes :: int

definition parseInt_env :: "string option \<Rightarrow> int option" where
  "parseInt_env v = parseInt (case v of None \<Rightarrow> ''undefined'' | Some s \<Rightarrow> s)"

definition config :: "environment \<Rightarrow> configuration" where
  "config env =
     \<lparr>server_port = (case PORT env of
                       None \<Rightarrow> Inr 3000
                     | Some s \<Rightarrow> if s = [] then Inr 3000 else Inl s),
      algorithm_maxTransfers =
        (case parseInt_env (MAX_TRANSFERS env) of
           None \<Rightarrow> 2
         | Some n \<Rightarrow> if n = 0 then 2 else n),
      algorithm_timeWindowMinutes =
        (case parseInt_env (TIME_WINDOW_MINUTES env) of
           None \<Rightarrow> 90
         | Some n \<Rightarrow> if n = 0 then 90 else n),
      algorithm_allowSameStationTransfers = (ALLOW_SAME_STATION_TRANSFERS env = Some ''true''),
      validation_maxStationNameLength = 50,
      validation_minStationNameLength = 1,
      validation_maxTransfers = 5,
      validation_maxTimeWindowMinutes = 480\<rparr>"

definition port_out_of_range :: "string + int \<Rightarrow> bool option" where
  "port_out_of_range port =
     (case port of
        Inr n \<Rightarrow> Some (n < 1 \<or> n > 65535)
      | Inl s \<Rightarrow> (case Number s of None \<Rightarrow> None | Some n \<Rightarrow> Some (n < 1 \<or> n > 65535)))"

definition validateConfig :: "configuration \<Rightarrow> string list option" where
  "validateConfig cfg =
     (case port_out_of_range (server_port cfg) of
        None \<Rightarrow> None
      | Some bad_port \<Rightarrow>
          Some ((if algorithm_maxTransfers cfg < 0 \<or>
                    algorithm_maxTransfers cfg > validation_maxTransfers cfg
                 then [''Max transfers''] else []) @
                (if algorithm_timeWindowMinutes cfg < 0 \<or>
                    algorithm_timeWindowMinutes cfg > validation_maxTimeWindowMinutes cfg
                 then [''Time window''] else []) @
                (if bad_port then [''Server port''] else [])))"

datatype startup = Exited | Unmodelled | Listening configuration

definition load_config :: "environment \<Rightarrow> startup" where
  "load_config env =
     (case validateConfig (config env) of
        None \<Rightarrow> Unmodelled
      | Some errors \<Rightarrow> if length errors > 0 then Exited else Listening (config env))"

subsection \<open>The route\<close>

text \<open>
  The route \<open>POST /find\<close> is the validation middleware followed by the handler. The five
  fields the two read from the body are each a parsed value or absent (\<open>None\<close>, the value
  \<open>undefined\<close>). The validation answers itself (\<open>Inl\<close>): 400 with the offending field, or
  500 \<open>Validation failed\<close> when one of its steps throws; otherwise it trims the two station
  names in the body and passes it on as it is, numbers unparsed. The middleware that
  \<open>app.js\<close> installs in front of the route (rate limiter, request timeout, body parser) is
  not part of it.
\<close>

record request_body =
  start_station :: "json option"
  end_station :: "json option"
  max_transfers :: "json option"
  window_minutes :: "json option"
  allow_same_station_consecutive_transfers :: "json option"

record snapshot =
  graph_nodes :: "node list"
  adjacencyList :: "nat \<Rightarrow> adj_edge list option"
  train_info :: "string \<Rightarrow> bool option"
  direction_map :: "string \<Rightarrow> int list option"

record response_summary =
  raw_path_count :: nat
  summary_window_minutes :: int
  fastest_minutes :: int
  filtered_path_count :: nat
  merged_path_count :: nat
  stats_skipped_same_station_transfers :: "nat option"

record response_statistics =
  direct_total :: nat
  direct_fast :: nat
  direct_slow :: nat
  transfer_breakdown :: "nat \<times> nat \<times> nat"

record find_response =
  response_start_station :: string
  response_end_station :: string
  summary :: response_summary
  response_paths :: "path_summary list"
  statistics :: "response_statistics option"

datatype response =
    Ok find_response
  | BadRequest string
  | ValidationFailed
  | ServiceUnavailable
  | InternalServerError
  | NotModelled

text \<open>\<open>!v || typeof v !== 'string'\<close> fails exactly on a non-empty string.\<close>

definition station_name :: "json option \<Rightarrow> string option" where
  "station_name v = (case v of Some (JString s) \<Rightarrow> if s = [] then None else Some s | _ \<Rightarrow> None)"

text \<open>
  The check of an optional number: \<open>v !== undefined\<close> and then
  \<open>isNaN(parseInt(v)) || parseInt(v) < 0 || parseInt(v) > bound\<close>.
\<close>

definition out_of_range :: "json option \<Rightarrow> int \<Rightarrow> js_error + bool" where
  "out_of_range v bound =
     (case v of
        None \<Rightarrow> Inr False
      | Some x \<Rightarrow>
          (case ToString x of
             Inl e \<Rightarrow> Inl e
           | Inr s \<Rightarrow>
               Inr (case parseInt s of
                      None \<Rightarrow> True
                    | Some n \<Rightarrow> n < 0 \<or> n > bound)))"

definition validatePathfindingRequest :: "configuration \<Rightarrow> request_body \<Rightarrow> response + request_body" where
  "validatePathfindingRequest cfg body =
     (case station_name (start_station body) of
        None \<Rightarrow> Inl (BadRequest ''start_station'')
      | Some s \<Rightarrow>
          (case station_name (end_station body) of
             None \<Rightarrow> Inl (BadRequest ''end_station'')
           | Some e \<Rightarrow>
               if length s < validation_minStationNameLength cfg \<or>
                  length s > validation_maxStationNameLength cfg
               then Inl (BadRequest ''start_station'')
               else if length e < validation_minStationNameLength cfg \<or>
                       length e > validation_maxStationNameLength cfg
               then Inl (BadRequest ''end_station'')
               else if trim s = trim e then Inl (BadRequest ''end_station'')
               else (case out_of_range (max_transfers body) (validation_maxTransfers cfg) of
                       Inl err \<Rightarrow> Inl ValidationFailed
                     | Inr True \<Rightarrow> Inl (BadRequest ''max_transfers'')
                     | Inr False \<Rightarrow>
                         (case out_of_range (window_minutes body)
                                 (validation_maxTimeWindowMinutes cfg) of
                            Inl err \<Rightarrow> Inl ValidationFailed
                          | Inr True \<Rightarrow> Inl (BadRequest ''window_minutes'')
                          | Inr False \<Rightarrow>
                              Inr (body\<lparr>start_station := Some (JString (trim s)),
                                         end_station := Some (JString (trim e))\<rparr>)))))"

text \<open>
  The handler. Its first statement after reading the body is
  \<open>const config = require('../config/config')\<close>. The file is an ES module (it imports and
  exports), where the name \<open>require\<close> is not bound: the statement throws a
  \<open>ReferenceError\<close> (\<open>None\<close>), \<open>asyncHandler\<close> passes it to \<open>errorHandler\<close>, and
  \<open>errorHandler\<close> answers 500, as it does for every error that is neither a validation,
  parse, file or timeout error. The statements after it are given as they would run with
  the configuration bound: \<open>data\<close> is the loaded files (\<open>None\<close> when loading failed), the
  search is run on integers (a transfer bound or window that is no integer is outside the
  model), and the timestamp \<open>generated_at\<close> is left out.
\<close>

definition require :: "string \<Rightarrow> configuration option" where
  "require path = None"

definition breakdown_slot :: "path_summary \<Rightarrow> int" where
  "breakdown_slot p = min (max (transfer_count p) 0) 2"

definition make_statistics :: "path_summary list \<Rightarrow> response_statistics" where
  "make_statistics mergedPaths =
     (let directPaths = filter (\<lambda>p. type p = Direct) mergedPaths
      in \<lparr>direct_total = length directPaths,
          direct_fast = length (filter is_fast directPaths),
          direct_slow = length (filter (\<lambda>p. \<not> is_fast p) directPaths),
          transfer_breakdown =
            (length (filter (\<lambda>p. breakdown_slot p = 0) mergedPaths),
             length (filter (\<lambda>p. breakdown_slot p = 1) mergedPaths),
             length (filter (\<lambda>p. breakdown_slot p = 2) mergedPaths))\<rparr>)"

definition empty_response :: "string \<Rightarrow> string \<Rightarrow> int \<Rightarrow> find_response" where
  "empty_response startStation endSt finalWindowMinutes =
     \<lparr>response_start_station = startStation, response_end_station = endSt,
      summary = \<lparr>raw_path_count = 0, summary_window_minutes = finalWindowMinutes,
                 fastest_minutes = 0, filtered_path_count = 0, merged_path_count = 0,
                 stats_skipped_same_station_transfers = None\<rparr>,
      response_paths = [], statistics = None\<rparr>"

definition respond ::
  "string \<Rightarrow> string \<Rightarrow> int \<Rightarrow> service_state \<Rightarrow> response"
where
  "respond startStation endSt finalWindowMinutes S =
     (let allPaths = service_paths S
      in if length allPaths = 0 then Ok (empty_response startStation endSt finalWindowMinutes)
         else (let filtered = filterPathsByTimeWindow allPaths finalWindowMinutes
               in case mergePathsByTrainSequence (paths filtered) of
                    Inl e \<Rightarrow> InternalServerError
                  | Inr merged \<Rightarrow>
                      (let mergedPaths = assign_ids merged
                       in Ok \<lparr>response_start_station = startStation,
                               response_end_station = endSt,
                               summary =
                                 \<lparr>raw_path_count = length allPaths,
                                  summary_window_minutes = finalWindowMinutes,
                                  fastest_minutes = fastestMinutes filtered,
                                  filtered_path_count = length (paths filtered),
                                  merged_path_count = length mergedPaths,
                                  stats_skipped_same_station_transfers =
                                    Some (skipped_same_station_transfers S)\<rparr>,
                               response_paths = mergedPaths,
                               statistics = Some (make_statistics mergedPaths)\<rparr>)))"

text \<open>\<open>v !== undefined ? v : d\<close>.\<close>

definition provided :: "json option \<Rightarrow> json \<Rightarrow> json" where
  "provided v d = (case v of None \<Rightarrow> d | Some x \<Rightarrow> x)"

definition find_handler :: "snapshot option \<Rightarrow> request_body \<Rightarrow> response" where
  "find_handler data body =
     (let startStation = start_station body;
          endSt = end_station body;
          maxTransfers = max_transfers body;
          windowMinutes = window_minutes body;
          allowSameStationTransfers = allow_same_station_consecutive_transfers body
      in case require ''../config/config'' of
           None \<Rightarrow> InternalServerError
         | Some cfg \<Rightarrow>
             (let finalMaxTransfers =
                    provided maxTransfers (JNumber (number_of_int (algorithm_maxTransfers cfg)));
                  finalWindowMinutes =
                    provided windowMinutes
                      (JNumber (number_of_int (algorithm_timeWindowMinutes cfg)));
                  finalAllowSameStationTransfers =
                    provided allowSameStationTransfers
                      (JBoolean (algorithm_allowSameStationTransfers cfg))
              in case data of
                   None \<Rightarrow> ServiceUnavailable
                 | Some d \<Rightarrow>
                     (case (startStation, endSt, integer_of finalMaxTransfers,
                            integer_of finalWindowMinutes) of
                        (Some (JString s), Some (JString e), Some m, Some w) \<Rightarrow>
                          (case run_search (graph_nodes d) (adjacencyList d) s e (train_info d)
                                  (Some (direction_map d))
                                  \<lparr>opt_maxTransfers = Some m,
                                   opt_allowSameStationConsecutiveTransfers =
                                     Some (ToBoolean finalAllowSameStationTransfers)\<rparr> of
                             Inl TypeError \<Rightarrow> InternalServerError
                           | Inl OutsideModel \<Rightarrow> NotModelled
                           | Inr S \<Rightarrow> respond s e w S)
                      | _ \<Rightarrow> NotModelled)))"

text \<open>
  The route as a client meets it: no answer (\<open>None\<close>) when the process exited while the
  configuration loaded, otherwise the answer of the validation or of the handler.
\<close>

definition find_route :: "environment \<Rightarrow> snapshot option \<Rightarrow> request_body \<Rightarrow> response option" where
  "find_route env data body =
     (case load_config env of
        Exited \<Rightarrow> None
      | Unmodelled \<Rightarrow> Some NotModelled
      | Listening cfg \<Rightarrow>
          Some (case validatePathfindingRequest cfg body of
                  Inl answer \<Rightarrow> answer
                | Inr sanitized \<Rightarrow> find_handler data sanitized))"

definition station_directory :: "snapshot \<Rightarrow> string set" where
  "station_directory d = set (map node_station (graph_nodes d))"

section \<open>The TypeScript port (frontend/src/algorithms/find_paths_dfs.ts)\<close>

text \<open>
  The port, function by function. Where its text computes what the backend computes
  (\<open>isTransferNow\<close>, \<open>nextTransfers\<close>, the directionality check, the sort, the first loop of
  the merge) the backend's definition is used; the definitions below are the places where
  the text differs. \<open>parseInt(x, 10)\<close> is modelled on strings of decimal digits and is
  \<open>NaN\<close> on the empty string; \<open>toTime\<close> normalises its argument into \<open>[0, 1440)\<close> first;
  the same-station rule tests \<open>lastTransferStation !== null\<close> and the train sequence tests
  \<open>!lastTrain\<close>; the merge takes \<open>transfer_count ?? ...\<close>, does not create missing option
  lists of a group, and keeps empty option lists, whose first element is \<open>undefined\<close>
  (\<open>OutsideModel\<close> here, as is an array with a hole). \<open>ts_findAllPaths\<close> returns
  \<open>{paths, stats}\<close>. The two pipelines of the comparison are \<open>findAllPaths\<close> followed by
  \<open>mergePathsByTrainSequence\<close> on either side; \<open>named_nodes\<close>, \<open>clock_string\<close> and
  \<open>start_times_readable\<close> describe the graphs on which they are compared.
\<close>

definition ts_parseInt :: "string \<Rightarrow> int option" where
  "ts_parseInt s = (if s = [] then None else map_option int (digits_value 0 s))"

definition ts_parseTime :: "string \<Rightarrow> int option" where
  "ts_parseTime timeStr =
     (if timeStr = [] then Some 0
      else if timeStr = ''00:00'' then Some 1440
      else (case split_on CHR '':'' timeStr of
              h # m # _ \<Rightarrow>
                (case (ts_parseInt h, ts_parseInt m) of
                   (Some hv, Some mv) \<Rightarrow> Some (hv * 60 + mv)
                 | _ \<Rightarrow> None)
            | _ \<Rightarrow> None))"

definition ts_toTime :: "int \<Rightarrow> string" where
  "ts_toTime totalMinutes =
     (let normalized = js_rem (js_rem totalMinutes 1440 + 1440) 1440;
          hours = js_floor_div normalized 60;
          minutes = js_rem normalized 60
      in padStart2 (toString hours) @ '':'' @ padStart2 (toString minutes))"

fun ts_summarize_loop ::
  "node list \<Rightarrow> hist_edge list \<Rightarrow> int \<Rightarrow> transfer_detail list \<Rightarrow> js_error + int \<times> transfer_detail list"
where
  "ts_summarize_loop ns [] timeline transferDetails = Inr (timeline, transferDetails)"
| "ts_summarize_loop ns (edge # edges) timeline transferDetails =
     (if h_type edge = ''transfer''
      then (if h_from edge < length ns
            then ts_summarize_loop ns edges (timeline + h_duration edge)
                   (transferDetails @
                    [\<lparr>td_station = node_station (ns ! h_from edge),
                      td_arrival_time = ts_toTime timeline,
                      td_departure_time = ts_toTime (timeline + h_duration edge),
                      td_wait_minutes = h_duration edge\<rparr>])
            else Inl TypeError)
      else ts_summarize_loop ns edges (timeline + h_duration edge) transferDetails)"

definition ts_summarizePath ::
  "node list \<Rightarrow> hist_edge list \<Rightarrow> string list \<Rightarrow> int \<Rightarrow> int \<Rightarrow> (string \<Rightarrow> bool option)
     \<Rightarrow> js_error + path_summary"
where
  "ts_summarizePath ns edgeHistory trainSequence startTime endTime ti =
     (case ts_summarize_loop ns edgeHistory startTime [] of
        Inl e \<Rightarrow> Inl e
      | Inr (walked, transferDetails) \<Rightarrow>
          (let timeline = (if walked \<noteq> endTime then endTime else walked);
               difference = timeline - startTime;
               totalMinutes = (if difference < 0 then difference + 1440 else difference);
               isFast = list_ex (\<lambda>tid. ti tid = Some True) trainSequence
           in Inr \<lparr>type = (if length transferDetails \<noteq> 0 then Transfer else Direct),
                   train_sequence = trainSequence,
                   transfer_details = transferDetails,
                   departure_time = ts_toTime startTime,
                   arrival_time = ts_toTime timeline,
                   total_time =
                     toString (js_floor_div totalMinutes 60) @ ''h '' @
                     toString (js_rem totalMinutes 60) @ ''m'',
                   total_minutes = totalMinutes,
                   is_fast = isFast,
                   transfer_count = int (length transferDetails),
                   path_id = None,
                   transfer_options = None\<rparr>))"

definition ts_skip_same_station :: "search \<Rightarrow> nat \<Rightarrow> string option \<Rightarrow> adj_edge \<Rightarrow> bool" where
  "ts_skip_same_station C currentIdx lastTransferStation edge \<longleftrightarrow>
     isTransferNow C currentIdx edge \<and> \<not> allowSameStationConsecutiveTransfers C \<and>
     lastTransferStation \<noteq> None \<and>
     Some (node_station (nodes C ! currentIdx)) = lastTransferStation"

definition ts_nextTrainSequence :: "string list \<Rightarrow> string \<Rightarrow> string list" where
  "ts_nextTrainSequence trainSequence neighborTrain =
     (let lastTrain = (if length trainSequence \<noteq> 0 then Some (last trainSequence) else None)
      in if \<not> truthy lastTrain \<or> Some neighborTrain \<noteq> lastTrain
         then trainSequence @ [neighborTrain]
         else trainSequence)"

function ts_dfs ::
  "search \<Rightarrow> nat \<Rightarrow> int \<Rightarrow> int \<Rightarrow> nat list \<Rightarrow> hist_edge list \<Rightarrow> string list \<Rightarrow> int
     \<Rightarrow> string option \<Rightarrow> service_state \<Rightarrow> js_error + service_state"
and ts_explore ::
  "search \<Rightarrow> adj_edge list \<Rightarrow> nat \<Rightarrow> int \<Rightarrow> int \<Rightarrow> nat list \<Rightarrow> hist_edge list \<Rightarrow> string list
     \<Rightarrow> int \<Rightarrow> string option \<Rightarrow> service_state \<Rightarrow> js_error + service_state"
where
  "ts_dfs C currentIdx currentTime transfersUsed path edgeHistory trainSequence startTime
       lastTransferStation S =
     (if \<not> currentIdx < length (nodes C) then Inl TypeError
      else if node_station (nodes C ! currentIdx) = endStation C \<and> length edgeHistory > 0
      then (case ts_summarizePath (nodes C) edgeHistory trainSequence startTime currentTime
                   (trainInfo C) of
              Inl e \<Rightarrow> Inl e
            | Inr summarized \<Rightarrow> Inr (emit C summarized S))
      else ts_explore C (neighbors C currentIdx) currentIdx currentTime transfersUsed path
             edgeHistory trainSequence startTime lastTransferStation S)"
| "ts_explore C [] currentIdx currentTime transfersUsed path edgeHistory trainSequence startTime
       lastTransferStation S = Inr S"
| "ts_explore C (edge # edges) currentIdx currentTime transfersUsed path edgeHistory
       trainSequence startTime lastTransferStation S =
     (if e_to edge \<in> set path
      then ts_explore C edges currentIdx currentTime transfersUsed path edgeHistory
             trainSequence startTime lastTransferStation S
      else if \<not> (e_to edge < length (nodes C) \<and> currentIdx < length (nodes C))
      then Inl TypeError
      else if e_duration edge \<le> 0
      then ts_explore C edges currentIdx currentTime transfersUsed path edgeHistory
             trainSequence startTime lastTransferStation S
      else if ts_skip_same_station C currentIdx lastTransferStation edge
      then ts_explore C edges currentIdx currentTime transfersUsed path edgeHistory
             trainSequence startTime lastTransferStation
             (S\<lparr>skipped_same_station_transfers := skipped_same_station_transfers S + 1\<rparr>)
      else if nextTransfers C currentIdx transfersUsed edge > maxTransfers C
      then ts_explore C edges currentIdx currentTime transfersUsed path edgeHistory
             trainSequence startTime lastTransferStation S
      else (case ts_dfs C (e_to edge) (currentTime + e_duration edge)
                   (nextTransfers C currentIdx transfersUsed edge)
                   (path @ [e_to edge])
                   (edgeHistory @ [history_entry currentIdx edge])
                   (ts_nextTrainSequence trainSequence (node_train (nodes C ! e_to edge)))
                   startTime
                   (if isTransferNow C currentIdx edge
                    then Some (node_station (nodes C ! currentIdx))
                    else lastTransferStation)
                   S of
              Inl e \<Rightarrow> Inl e
            | Inr S' \<Rightarrow>
                ts_explore C edges currentIdx currentTime transfersUsed path edgeHistory
                  trainSequence startTime lastTransferStation S'))"
  by pat_completeness auto
termination
  apply (relation "inv_image (measure id <*lex*> measure id)
      (\<lambda>x. case x of
          Inl (C, currentIdx, currentTime, transfersUsed, path, rest) \<Rightarrow>
            (unvisited C path, Suc (length (neighbors C currentIdx)))
        | Inr (C, edges, currentIdx, currentTime, transfersUsed, path, rest) \<Rightarrow>
            (unvisited C path, length edges))")
  apply (auto simp: unvisited_less)
  done

declare ts_dfs.simps [simp del] ts_explore.simps(2) [simp del]

fun ts_start_loop :: "search \<Rightarrow> nat list \<Rightarrow> service_state \<Rightarrow> js_error + service_state" where
  "ts_start_loop C [] S = Inr S"
| "ts_start_loop C (startIdx # rest) S =
     (if \<not> startIdx < length (nodes C) then Inl TypeError
      else (case ts_parseTime (node_time (nodes C ! startIdx)) of
              None \<Rightarrow> Inl OutsideModel
            | Some startTime \<Rightarrow>
                (case ts_dfs C startIdx startTime 0 [startIdx] []
                        [node_train (nodes C ! startIdx)] startTime None S of
                   Inl e \<Rightarrow> Inl e
                 | Inr S' \<Rightarrow> ts_start_loop C rest S')))"

definition ts_findAllPaths ::
  "node list \<Rightarrow> (nat \<Rightarrow> adj_edge list option) \<Rightarrow> string \<Rightarrow> string \<Rightarrow> (string \<Rightarrow> bool option)
     \<Rightarrow> (string \<Rightarrow> int list option) option \<Rightarrow> find_options \<Rightarrow> js_error + service_state"
where
  "ts_findAllPaths ns adj startStation endSt ti dm opts =
     (let C = search_of ns adj endSt ti dm opts;
          fresh = \<lparr>service_paths = [], skipped_same_station_transfers = 0\<rparr>
      in if length (startNodes ns startStation) = 0 then Inr fresh
         else (case ts_start_loop C (startNodes ns startStation) fresh of
                 Inl e \<Rightarrow> Inl e
               | Inr S \<Rightarrow>
                   Inr (S\<lparr>service_paths :=
                            assign_ids (array_sort compare_paths (service_paths S))\<rparr>)))"

definition ts_merge_key_of :: "path_summary \<Rightarrow> merge_key" where
  "ts_merge_key_of entry =
     (train_sequence entry, type entry, transfer_count entry,
      departure_time entry, arrival_time entry, total_minutes entry)"

fun ts_add_options ::
  "transfer_detail list list \<Rightarrow> nat \<Rightarrow> transfer_detail list \<Rightarrow> js_error + transfer_detail list list"
where
  "ts_add_options optionLists idx [] = Inr optionLists"
| "ts_add_options optionLists idx (detail # details) =
     (if idx > length optionLists then Inl OutsideModel
      else (let grown = (if idx = length optionLists then optionLists @ [[]] else optionLists)
            in ts_add_options
                 (if detail \<in> set (grown ! idx) then grown
                  else grown[idx := grown ! idx @ [detail]])
                 (Suc idx) details))"

definition ts_merge_step ::
  "(merge_key \<times> merge_group) list \<Rightarrow> path_summary \<Rightarrow> js_error + (merge_key \<times> merge_group) list"
where
  "ts_merge_step grouped entry =
     (let transferCount = transfer_count entry;
          key = ts_merge_key_of entry
      in case map_of grouped key of
           None \<Rightarrow>
             (if transferCount > 0
              then (case push_first (replicate (nat transferCount) []) 0 (transfer_details entry) of
                      Inl e \<Rightarrow> Inl e
                    | Inr optionLists \<Rightarrow>
                        Inr (grouped @ [(key, \<lparr>base = entry, option_lists = Some optionLists\<rparr>)]))
              else Inr (grouped @ [(key, \<lparr>base = entry, option_lists = None\<rparr>)]))
         | Some g \<Rightarrow>
             (if transferCount = 0 then Inr grouped
              else (case option_lists g of
                      None \<Rightarrow> (if transfer_details entry = [] then Inr grouped else Inl TypeError)
                    | Some optionLists \<Rightarrow>
                        (case ts_add_options optionLists 0 (transfer_details entry) of
                           Inl e \<Rightarrow> Inl e
                         | Inr optionLists' \<Rightarrow>
                             Inr (AList.update key (g\<lparr>option_lists := Some optionLists'\<rparr>)
                                    grouped)))))"

fun ts_merge_loop ::
  "(merge_key \<times> merge_group) list \<Rightarrow> path_summary list \<Rightarrow> js_error + (merge_key \<times> merge_group) list"
where
  "ts_merge_loop grouped [] = Inr grouped"
| "ts_merge_loop grouped (entry # entries) =
     (case ts_merge_step grouped entry of
        Inl e \<Rightarrow> Inl e
      | Inr grouped' \<Rightarrow> ts_merge_loop grouped' entries)"

definition ts_finish_group :: "merge_group \<Rightarrow> js_error + path_summary" where
  "ts_finish_group g =
     (case option_lists g of
        None \<Rightarrow> Inr (base g)
      | Some optionLists \<Rightarrow>
          (if [] \<in> set optionLists then Inl OutsideModel
           else Inr ((base g)
                  \<lparr>transfer_details := map hd optionLists,
                   transfer_options :=
                     Some (map (\<lambda>(idx, opts). \<lparr>step = idx + 1, options = opts\<rparr>)
                             (enumerate 0 optionLists))\<rparr>)))"

fun ts_finish_loop :: "(merge_key \<times> merge_group) list \<Rightarrow> js_error + path_summary list" where
  "ts_finish_loop [] = Inr []"
| "ts_finish_loop ((key, g) # rest) =
     (case ts_finish_group g of
        Inl e \<Rightarrow> Inl e
      | Inr merged \<Rightarrow>
          (case ts_finish_loop rest of Inl e \<Rightarrow> Inl e | Inr others \<Rightarrow> Inr (merged # others)))"

definition ts_mergePathsByTrainSequence :: "path_summary list \<Rightarrow> js_error + path_summary list" where
  "ts_mergePathsByTrainSequence ps =
     (case ts_merge_loop [] ps of
        Inl e \<Rightarrow> Inl e
      | Inr grouped \<Rightarrow> ts_finish_loop grouped)"

definition backend_pipeline ::
  "node list \<Rightarrow> (nat \<Rightarrow> adj_edge list option) \<Rightarrow> string \<Rightarrow> string \<Rightarrow> (string \<Rightarrow> bool option)
     \<Rightarrow> (string \<Rightarrow> int list option) option \<Rightarrow> find_options \<Rightarrow> js_error + path_summary list"
where
  "backend_pipeline ns adj startStation endSt ti dm opts =
     (case findAllPaths ns adj startStation endSt ti dm opts of
        Inl e \<Rightarrow> Inl e
      | Inr ps \<Rightarrow> mergePathsByTrainSequence ps)"

definition frontend_pipeline ::
  "node list \<Rightarrow> (nat \<Rightarrow> adj_edge list option) \<Rightarrow> string \<Rightarrow> string \<Rightarrow> (string \<Rightarrow> bool option)
     \<Rightarrow> (string \<Rightarrow> int list option) option \<Rightarrow> find_options \<Rightarrow> js_error + path_summary list"
where
  "frontend_pipeline ns adj startStation endSt ti dm opts =
     (case ts_findAllPaths ns adj startStation endSt ti dm opts of
        Inl e \<Rightarrow> Inl e
      | Inr S \<Rightarrow> ts_mergePathsByTrainSequence (service_paths S))"

definition is_digits :: "string \<Rightarrow> bool" where
  "is_digits s \<longleftrightarrow> s \<noteq> [] \<and> list_all (\<lambda>c. digit_val c \<noteq> None) s"

definition clock_string :: "string \<Rightarrow> bool" where
  "clock_string t =
     (case split_on CHR '':'' t of
        h # m # _ \<Rightarrow> is_digits h \<and> is_digits m
      | _ \<Rightarrow> False)"

definition named_nodes :: "node list \<Rightarrow> bool" where
  "named_nodes ns \<longleftrightarrow> list_all (\<lambda>n. node_station n \<noteq> [] \<and> node_train n \<noteq> []) ns"

definition start_times_readable :: "node list \<Rightarrow> string \<Rightarrow> bool" where
  "start_times_readable ns startStation \<longleftrightarrow>
     list_all (\<lambda>n. clock_string (node_time n)) (filter (\<lambda>n. node_station n = startStation) ns)"

definition steady :: "search \<Rightarrow> int \<Rightarrow> int \<Rightarrow> hist_edge list \<Rightarrow> string list \<Rightarrow> string option \<Rightarrow> bool" where
  "steady C st t eh ts lts \<longleftrightarrow>
     named_nodes (nodes C) \<and> 0 \<le> st \<and> 0 \<le> t \<and> (\<forall>h \<in> set eh. 0 < h_duration h) \<and>
     ts \<noteq> [] \<and> last ts \<noteq> [] \<and> (lts = None \<or> (\<exists>s. lts = Some s \<and> s \<noteq> []))"

section \<open>Sample data\<close>

text \<open>A direct path of the given duration leaving at 08:00, as \<open>summarizePath\<close> builds it.\<close>

definition direct_path :: "int \<Rightarrow> path_summary" where
  "direct_path t =
     \<lparr>type = Direct, train_sequence = [''T1''], transfer_details = [],
      departure_time = ''08:00'', arrival_time = toTime (480 + t),
      total_time = formatDuration t, total_minutes = t, is_fast = False,
      transfer_count = 0, path_id = None, transfer_options = None\<rparr>"

text \<open>
  Two itineraries on the trains T1 and T2 with the same departure, arrival and duration,
  changing trains at Y or at W (scenario C of the specification).
\<close>

definition change_at :: "string \<Rightarrow> string \<Rightarrow> string \<Rightarrow> int \<Rightarrow> transfer_detail" where
  "change_at s a d w =
     \<lparr>td_station = s, td_arrival_time = a, td_departure_time = d, td_wait_minutes = w\<rparr>"

definition one_change :: "transfer_detail \<Rightarrow> path_summary" where
  "one_change d =
     \<lparr>type = Transfer, train_sequence = [''T1'', ''T2''], transfer_details = [d],
      departure_time = ''08:00'', arrival_time = ''09:10'',
      total_time = ''1h 10m'', total_minutes = 70, is_fast = False,
      transfer_count = 1, path_id = None, transfer_options = None\<rparr>"

definition via_Y :: path_summary where
  "via_Y = one_change (change_at ''Y'' ''08:30'' ''08:40'' 10)"

definition via_W :: path_summary where
  "via_W = one_change (change_at ''W'' ''08:45'' ''08:55'' 10)"

definition merged_Y_W :: path_summary where
  "merged_Y_W =
     via_Y\<lparr>transfer_options :=
             Some [\<lparr>step = 1, options = [change_at ''Y'' ''08:30'' ''08:40'' 10,
                                          change_at ''W'' ''08:45'' ''08:55'' 10]\<rparr>]\<rparr>"


definition no_options :: find_options where
  "no_options = \<lparr>opt_maxTransfers = None, opt_allowSameStationConsecutiveTransfers = None\<rparr>"

definition no_train_info :: "string \<Rightarrow> bool option" where
  "no_train_info = (\<lambda>trainId. None)"

definition change_nodes :: "node list" where
  "change_nodes =
     [(''X'', ''T1'', ''08:00''), (''Y'', ''T1'', ''08:30''),
      (''Y'', ''T2'', ''08:40''), (''Z'', ''T2'', ''09:10'')]"

definition change_adjacency :: "nat \<Rightarrow> adj_edge list option" where
  "change_adjacency =
     [0 \<mapsto> [\<lparr>e_to = 1, e_type = ''travel'', e_duration = 30\<rparr>],
      1 \<mapsto> [\<lparr>e_to = 2, e_type = ''transfer'', e_duration = 10\<rparr>],
      2 \<mapsto> [\<lparr>e_to = 3, e_type = ''travel'', e_duration = 30\<rparr>],
      3 \<mapsto> []]"

definition change_path :: path_summary where
  "change_path = (one_change (change_at ''Y'' ''08:30'' ''08:40'' 10))\<lparr>path_id := Some 1\<rparr>"

definition cross_nodes :: "node list" where
  "cross_nodes = [(''A'', ''T1'', ''08:00''), (''B'', ''T2'', ''09:00'')]"

definition cross_adjacency :: "nat \<Rightarrow> adj_edge list option" where
  "cross_adjacency = [0 \<mapsto> [\<lparr>e_to = 1, e_type = ''travel'', e_duration = 60\<rparr>], 1 \<mapsto> []]"

definition cross_path :: path_summary where
  "cross_path =
     \<lparr>type = Direct, train_sequence = [''T1'', ''T2''], transfer_details = [],
      departure_time = ''08:00'', arrival_time = ''09:00'',
      total_time = ''1h 0m'', total_minutes = 60, is_fast = False,
      transfer_count = 0, path_id = Some 1, transfer_options = None\<rparr>"

definition overnight_nodes :: "node list" where
  "overnight_nodes =
     [(''X'', ''T1'', ''08:00''), (''Y'', ''T1'', ''21:20''),
      (''Y'', ''T2'', ''09:00''), (''Z'', ''T2'', ''10:00'')]"

definition overnight_adjacency :: "nat \<Rightarrow> adj_edge list option" where
  "overnight_adjacency =
     [0 \<mapsto> [\<lparr>e_to = 1, e_type = ''travel'', e_duration = 800\<rparr>],
      1 \<mapsto> [\<lparr>e_to = 2, e_type = ''transfer'', e_duration = 700\<rparr>],
      2 \<mapsto> [\<lparr>e_to = 3, e_type = ''travel'', e_duration = 60\<rparr>],
      3 \<mapsto> []]"

definition overnight_path :: path_summary where
  "overnight_path =
     \<lparr>type = Transfer, train_sequence = [''T1'', ''T2''],
      transfer_details = [change_at ''Y'' ''21:20'' ''09:00'' 700],
      departure_time = ''08:00'', arrival_time = ''10:00'',
      total_time = ''26h 0m'', total_minutes = 1560, is_fast = False,
      transfer_count = 1, path_id = Some 1, transfer_options = None\<rparr>"

definition same_way :: "string \<Rightarrow> int list option" where
  "same_way = [''T1'' \<mapsto> [1, 0], ''T2'' \<mapsto> [1, 0]]"

definition opposite_ways :: "string \<Rightarrow> int list option" where
  "opposite_ways = [''T1'' \<mapsto> [1, 0], ''T2'' \<mapsto> [- 1, 0]]"

definition unset_environment :: environment where
  "unset_environment =
     \<lparr>PORT = None, MAX_TRANSFERS = None, TIME_WINDOW_MINUTES = None,
      ALLOW_SAME_STATION_TRANSFERS = None\<rparr>"

definition window_120_environment :: environment where
  "window_120_environment =
     \<lparr>PORT = Some ''3000'', MAX_TRANSFERS = Some ''2'', TIME_WINDOW_MINUTES = Some ''120'',
      ALLOW_SAME_STATION_TRANSFERS = Some ''false''\<rparr>"

definition change_snapshot :: snapshot where
  "change_snapshot = \<lparr>graph_nodes = change_nodes, adjacencyList = change_adjacency,
     train_info = no_train_info, direction_map = same_way\<rparr>"

definition plain_request :: "string \<Rightarrow> string \<Rightarrow> request_body" where
  "plain_request s e =
     \<lparr>start_station = Some (JString s), end_station = Some (JString e), max_transfers = None,
      window_minutes = None, allow_same_station_consecutive_transfers = None\<rparr>"

definition unnamed_train_nodes :: "node list" where
  "unnamed_train_nodes = [(''A'', '''', ''08:00''), (''B'', '''', ''09:00'')]"

definition unnamed_train_path :: "string list \<Rightarrow> path_summary" where
  "unnamed_train_path trains = cross_path\<lparr>train_sequence := trains\<rparr>"

section \<open>Properties of the time utilities\<close>

lemma digit_char_0: "digit_char 0 = CHR ''0''"
  unfolding digit_char_def by code_simp

lemma digit_val_digit_char: "d < 10 \<Longrightarrow> digit_val (digit_char d) = Some d"
  by (simp add: digit_val_def digit_char_def Let_def)

lemma digit_char_not_colon: "d < 10 \<Longrightarrow> digit_char d \<noteq> CHR '':''"
proof
  assume d: "d < 10" and eq: "digit_char d = CHR '':''"
  have "(of_char (digit_char d) :: nat) = 48 + d"
    using d by (simp add: digit_char_def)
  moreover have "(of_char (CHR '':'') :: nat) = 58" by simp
  ultimately show False using d eq by simp
qed

lemma digits_value_append:
  "digits_value acc (xs @ ys) =
     (case digits_value acc xs of None \<Rightarrow> None | Some v \<Rightarrow> digits_value v ys)"
  by (induction xs arbitrary: acc) (auto split: option.splits)

lemma digits_value_digits_of: "digits_value 0 (digits_of n) = Some n"
proof (induction n rule: digits_of.induct)
  case (1 n)
  show ?case
  proof (cases "n < 10")
    case True
    then show ?thesis
      by (subst digits_of.simps) (simp add: digit_val_digit_char)
  next
    case False
    with 1 have ih: "digits_value 0 (digits_of (n div 10)) = Some (n div 10)" by simp
    have "digits_of n = digits_of (n div 10) @ [digit_char (n mod 10)]"
      using False by (subst digits_of.simps) simp
    then show ?thesis
      by (simp add: digits_value_append ih digit_val_digit_char)
  qed
qed

lemma digits_of_no_colon: "CHR '':'' \<notin> set (digits_of n)"
proof (induction n rule: digits_of.induct)
  case (1 n)
  show ?case
  proof (cases "n < 10")
    case True
    then show ?thesis
      using digit_char_not_colon [of n] by (subst digits_of.simps) auto
  next
    case False
    with 1 have "CHR '':'' \<notin> set (digits_of (n div 10))" by simp
    moreover have "digit_char (n mod 10) \<noteq> CHR '':''"
      by (rule digit_char_not_colon) simp
    ultimately show ?thesis
      using False by (subst digits_of.simps) auto
  qed
qed

lemma digits_value_zeros:
  "digits_value 0 (replicate k CHR ''0'' @ s) = digits_value 0 s"
  by (induction k) (simp_all add: digit_val_def)

lemma Number_padStart2_toString:
  "0 \<le> i \<Longrightarrow> Number (padStart2 (toString i)) = Some i"
  by (simp add: Number_def padStart2_def toString_def digits_value_zeros digits_value_digits_of)

lemma padStart2_toString_no_colon:
  "0 \<le> i \<Longrightarrow> CHR '':'' \<notin> set (padStart2 (toString i))"
  by (auto simp: padStart2_def toString_def digits_of_no_colon)

lemma split_on_no_sep: "c \<notin> set s \<Longrightarrow> split_on c s = [s]"
  by (induction s) auto

lemma split_on_two:
  "c \<notin> set a \<Longrightarrow> c \<notin> set b \<Longrightarrow> split_on c (a @ c # b) = [a, b]"
  by (induction a) (auto simp: split_on_no_sep)

lemma parseTime_clock:
  assumes h: "0 \<le> h" and m: "0 \<le> m"
  shows "parseTime (padStart2 (toString h) @ '':'' @ padStart2 (toString m)) =
           Some (if h = 0 \<and> m = 0 then 1440 else h * 60 + m)"
proof -
  let ?a = "padStart2 (toString h)" and ?b = "padStart2 (toString m)"
  let ?s = "?a @ '':'' @ ?b"
  have sp: "split_on CHR '':'' ?s = [?a, ?b]"
    using split_on_two [OF padStart2_toString_no_colon [OF h] padStart2_toString_no_colon [OF m]]
    by simp
  have na: "Number ?a = Some h" and nb: "Number ?b = Some m"
    using h m by (simp_all add: Number_padStart2_toString)
  have ne: "?s \<noteq> []" by simp
  have zero: "?s = ''00:00'' \<longleftrightarrow> h = 0 \<and> m = 0"
  proof
    assume eq: "?s = ''00:00''"
    have "split_on CHR '':'' ?s = [''00'', ''00'']"
      unfolding eq by simp
    with sp have "?a = ''00''" and "?b = ''00''" by simp_all
    with na nb show "h = 0 \<and> m = 0"
      by (simp_all add: Number_def digit_val_def)
  next
    assume "h = 0 \<and> m = 0"
    then show "?s = ''00:00''"
      by (simp add: padStart2_def toString_def digits_of.simps digit_char_0)
  qed
  show ?thesis
  proof (cases "h = 0 \<and> m = 0")
    case True
    with zero have "?s = ''00:00''" by simp
    then show ?thesis using True unfolding parseTime_def by simp
  next
    case False
    with zero have "?s \<noteq> ''00:00''" by simp
    then show ?thesis
      using False ne sp na nb unfolding parseTime_def by simp
  qed
qed

lemma clock_total: "(r::int) div 60 * 60 + r mod 60 = r"
  by simp

lemma div_mod_60_zero: "((r::int) div 60 = 0 \<and> r mod 60 = 0) \<longleftrightarrow> r = 0"
proof
  assume a: "r div 60 = 0 \<and> r mod 60 = 0"
  have "r = r div 60 * 60 + r mod 60" by simp
  also have "\<dots> = 0" using a by simp
  finally show "r = 0" .
next
  assume "r = 0"
  then show "r div 60 = 0 \<and> r mod 60 = 0" by simp
qed

lemma js_rem_nonneg: "0 \<le> a \<Longrightarrow> 0 < b \<Longrightarrow> js_rem a b = a mod b"
  by (cases "a = 0") (simp_all add: js_rem_def)

lemma toTime_nonneg:
  "0 \<le> t \<Longrightarrow>
   toTime t = padStart2 (toString ((t mod 1440) div 60)) @ '':'' @ padStart2 (toString ((t mod 1440) mod 60))"
proof -
  assume t: "0 \<le> t"
  have r: "js_rem t 1440 = t mod 1440"
    using t by (rule js_rem_nonneg) simp
  have "0 \<le> t mod 1440" by simp
  then have m: "js_rem (t mod 1440) 60 = (t mod 1440) mod 60"
    by (rule js_rem_nonneg) simp
  show ?thesis
    unfolding toTime_def Let_def r m js_floor_div_def ..
qed

lemma parseTime_toTime:
  assumes "0 \<le> t"
  shows "parseTime (toTime t) = Some (if t mod 1440 = 0 then 1440 else t mod 1440)"
proof -
  define r where "r = t mod 1440"
  have r: "0 \<le> r" by (simp add: r_def)
  then have h: "0 \<le> r div 60" and m: "0 \<le> r mod 60"
    by (simp_all add: pos_imp_zdiv_nonneg_iff)
  have "parseTime (toTime t) =
          Some (if r div 60 = 0 \<and> r mod 60 = 0 then 1440 else r div 60 * 60 + r mod 60)"
    unfolding toTime_nonneg [OF assms] r_def [symmetric]
    by (rule parseTime_clock [OF h m])
  then show ?thesis
    unfolding clock_total div_mod_60_zero r_def .
qed

text \<open>
  C4 (as stated): for every integer \<open>m\<close> in \<open>[0, 1440]\<close>, \<open>parseTime (toTime m)\<close> is
  \<open>m mod 1440\<close>. At \<open>m = 0\<close> the formatted string is \<open>00:00\<close>, which \<open>parseTime\<close> maps to
  1440 by its dedicated branch, while \<open>0 mod 1440\<close> is 0.
\<close>

theorem parseTime_toTime_zero_counterexample:
  "toTime 0 = ''00:00'' \<and> parseTime (toTime 0) = Some 1440 \<and> (1440::int) \<noteq> 0 mod 1440"
  by (simp add: toTime_nonneg padStart2_def toString_def digits_of.simps digit_char_0
      parseTime_def)

text \<open>
  C4 (amended): for every integer \<open>m\<close> in \<open>[0, 1440]\<close>, \<open>parseTime (toTime m)\<close> is \<open>m\<close> itself
  when \<open>1 \<le> m \<le> 1439\<close>, and 1440 at the two ends \<open>m = 0\<close> and \<open>m = 1440\<close> (both format to
  \<open>00:00\<close>). The result is always congruent to \<open>m\<close> modulo 1440.
\<close>

theorem parseTime_toTime_roundtrip:
  assumes "0 \<le> m" and "m \<le> 1440"
  shows "parseTime (toTime m) = Some (if m = 0 \<or> m = 1440 then 1440 else m)"
proof -
  have "m = 0 \<or> m = 1440 \<or> (0 < m \<and> m < 1440)"
    using assms by linarith
  then show ?thesis
  proof (elim disjE)
    assume "m = 0"
    then show ?thesis using parseTime_toTime [of 0] by simp
  next
    assume "m = 1440"
    then show ?thesis using parseTime_toTime [of 1440] by simp
  next
    assume r: "0 < m \<and> m < 1440"
    then have "m mod 1440 = m" by simp
    then show ?thesis using parseTime_toTime [of m] r by simp
  qed
qed

theorem parseTime_toTime_roundtrip_witness:
  "(0::int) \<le> 510 \<and> (510::int) \<le> 1440 \<and> parseTime (toTime 510) = Some 510"
  using parseTime_toTime_roundtrip [of 510] by simp

section \<open>Properties of the time-window filter\<close>

lemma Math_min_Min: "Math_min x xs = Min (set (x # xs))"
  unfolding Math_min_def Min.set_eq_fold ..

text \<open>
  C8: on a non-empty list the filter keeps, in order, exactly the paths whose
  \<open>total_minutes\<close> is at most the least \<open>total_minutes\<close> of the list plus
  \<open>max windowMinutes 0\<close>. The comparison is \<open>\<le>\<close>, so a path exactly at the cutoff stays,
  and a negative window counts as zero. The reported \<open>fastestMinutes\<close> is that minimum.
\<close>

theorem filterPathsByTimeWindow_keeps:
  assumes "ps \<noteq> []"
  shows "paths (filterPathsByTimeWindow ps windowMinutes) =
           filter (\<lambda>q. total_minutes q \<le> Min (total_minutes ` set ps) + max windowMinutes 0) ps
         \<and> fastestMinutes (filterPathsByTimeWindow ps windowMinutes) = Min (total_minutes ` set ps)"
proof -
  from assms obtain p rest where ps: "ps = p # rest" by (cases ps) auto
  have "Math_min (total_minutes p) (map total_minutes rest) = Min (total_minutes ` set ps)"
    by (simp add: Math_min_Min ps)
  then show ?thesis
    by (simp add: filterPathsByTimeWindow_def ps Let_def)
qed

theorem filterPathsByTimeWindow_keeps_witness:
  "[direct_path 60, direct_path 180, direct_path 181] \<noteq> [] \<and>
   paths (filterPathsByTimeWindow [direct_path 60, direct_path 180, direct_path 181] 120) =
     [direct_path 60, direct_path 180] \<and>
   fastestMinutes (filterPathsByTimeWindow [direct_path 60, direct_path 180, direct_path 181] 120) = 60 \<and>
   paths (filterPathsByTimeWindow [direct_path 60, direct_path 180, direct_path 181] (- 5)) =
     [direct_path 60]"
  using filterPathsByTimeWindow_keeps [of "[direct_path 60, direct_path 180, direct_path 181]" 120]
        filterPathsByTimeWindow_keeps [of "[direct_path 60, direct_path 180, direct_path 181]" "- 5"]
  by (simp add: direct_path_def)

section \<open>Properties of the merge\<close>

lemma transferCount_of_counted: "counted p \<Longrightarrow> transferCount_of p = int (length (transfer_details p))"
  by (simp add: counted_def transferCount_of_def)

lemma push_first_singletons:
  "length ds \<le> k \<Longrightarrow>
   push_first (map (\<lambda>d. [d]) pre @ replicate k []) (length pre) ds =
     Inr (map (\<lambda>d. [d]) (pre @ ds) @ replicate (k - length ds) [])"
proof (induction ds arbitrary: pre k)
  case Nil
  then show ?case by simp
next
  case (Cons d ds)
  then obtain k' where k: "k = Suc k'" and le: "length ds \<le> k'"
    by (cases k) auto
  have upd: "(map (\<lambda>d. [d]) pre @ replicate k [])[length pre := (map (\<lambda>d. [d]) pre @ replicate k []) ! length pre @ [d]]
               = map (\<lambda>d. [d]) (pre @ [d]) @ replicate k' []"
    by (simp add: k list_update_append nth_append)
  have "push_first (map (\<lambda>d. [d]) pre @ replicate k []) (length pre) (d # ds) =
          push_first (map (\<lambda>d. [d]) (pre @ [d]) @ replicate k' []) (length (pre @ [d])) ds"
    using upd by (simp add: k)
  also have "\<dots> = Inr (map (\<lambda>d. [d]) ((pre @ [d]) @ ds) @ replicate (k' - length ds) [])"
    by (rule Cons.IH [OF le])
  finally show ?case by (simp add: k)
qed

lemma push_first_fresh:
  "push_first (replicate (length ds) []) 0 ds = Inr (map (\<lambda>d. [d]) ds)"
  using push_first_singletons [of ds "length ds" "[]"] by simp

lemma add_options_keeps:
  "idx + length ds \<le> length ol \<Longrightarrow> [] \<notin> set ol \<Longrightarrow>
   \<exists>ol'. add_options ol idx ds = Inr ol' \<and> length ol' = length ol \<and>
         map hd ol' = map hd ol \<and> [] \<notin> set ol'"
proof (induction ds arbitrary: ol idx)
  case Nil
  then show ?case by simp
next
  case (Cons d ds)
  then have idx: "idx < length ol" by simp
  let ?ol1 = "if d \<in> set (ol ! idx) then ol else ol[idx := ol ! idx @ [d]]"
  have ne: "ol ! idx \<noteq> []" using Cons.prems idx by (metis nth_mem)
  have len: "length ?ol1 = length ol" by simp
  have hd1: "map hd ?ol1 = map hd ol"
    using ne idx by (simp add: map_update list_update_same_conv)
  have ne1: "[] \<notin> set ?ol1"
    using Cons.prems(2) set_update_subset_insert [of ol idx "ol ! idx @ [d]"] by auto
  have "Suc idx + length ds \<le> length ?ol1" using Cons.prems(1) by simp
  from Cons.IH [OF this ne1] obtain ol' where
    "add_options ?ol1 (Suc idx) ds = Inr ol'" "length ol' = length ?ol1"
    "map hd ol' = map hd ?ol1" "[] \<notin> set ol'" by blast
  then show ?case
    using idx len hd1 by (auto simp: Let_def)
qed

lemma set_AList_update:
  "kg \<in> set (AList.update k v al) \<Longrightarrow> kg = (k, v) \<or> kg \<in> set al"
  by (induction al) (auto simp: AList.update.simps split: if_splits)

lemma merge_step_ok:
  assumes g: "groups_ok grouped" and c: "counted entry"
  shows "\<exists>grouped'. merge_step grouped entry = Inr grouped' \<and> groups_ok grouped'"
proof -
  let ?key = "merge_key_of entry"
  let ?ds = "transfer_details entry"
  have tc: "transferCount_of entry = int (length ?ds)"
    using c by (rule transferCount_of_counted)
  show ?thesis
  proof (cases "map_of grouped ?key")
    case None
    then have fresh: "?key \<notin> fst ` set grouped"
      by (simp add: map_of_eq_None_iff)
    show ?thesis
    proof (cases "?ds = []")
      case True
      have "merge_step grouped entry = Inr (grouped @ [(?key, \<lparr>base = entry, option_lists = None\<rparr>)])"
        using None True tc by (simp add: merge_step_def Let_def)
      moreover have "groups_ok (grouped @ [(?key, \<lparr>base = entry, option_lists = None\<rparr>)])"
        using g fresh c True by (auto simp: groups_ok_def group_ok_def)
      ultimately show ?thesis by blast
    next
      case False
      have "merge_step grouped entry =
              Inr (grouped @ [(?key, \<lparr>base = entry, option_lists = Some (map (\<lambda>d. [d]) ?ds)\<rparr>)])"
        using None False tc by (simp add: merge_step_def Let_def push_first_fresh)
      moreover have "groups_ok (grouped @ [(?key, \<lparr>base = entry, option_lists = Some (map (\<lambda>d. [d]) ?ds)\<rparr>)])"
        using g fresh c False by (auto simp: groups_ok_def group_ok_def comp_def)
      ultimately show ?thesis by blast
    qed
  next
    case (Some grp)
    then have mem: "(?key, grp) \<in> set grouped" by (rule map_of_SomeD)
    with g have ok: "group_ok (?key, grp)" by (auto simp: groups_ok_def)
    then have keq: "merge_key_of (base grp) = ?key" and cb: "counted (base grp)"
      by (simp_all add: group_ok_def)
    have "transferCount_of (base grp) = transferCount_of entry"
      using keq by (simp add: merge_key_of_def)
    then have leq: "length (transfer_details (base grp)) = length ?ds"
      using tc transferCount_of_counted [OF cb] by simp
    show ?thesis
    proof (cases "?ds = []")
      case True
      then have "merge_step grouped entry = Inr grouped"
        using Some tc by (simp add: merge_step_def Let_def)
      with g show ?thesis by blast
    next
      case False
      with leq have bne: "transfer_details (base grp) \<noteq> []" by auto
      with ok obtain ol where ol: "option_lists grp = Some ol"
        and hd: "map hd ol = transfer_details (base grp)" and ne: "[] \<notin> set ol"
        by (auto simp: group_ok_def split: option.splits)
      have "length ol = length ?ds"
        using hd leq by (metis length_map)
      then have "0 + length ?ds \<le> length ol" by simp
      from add_options_keeps [OF this ne] obtain ol' where
        ao: "add_options ol 0 ?ds = Inr ol'" and "length ol' = length ol"
        and hd': "map hd ol' = map hd ol" and ne': "[] \<notin> set ol'" by blast
      let ?g' = "AList.update ?key (grp\<lparr>option_lists := Some ol'\<rparr>) grouped"
      have "merge_step grouped entry = Inr ?g'"
        using Some False tc ol ao by (simp add: merge_step_def Let_def)
      moreover have "group_ok (?key, grp\<lparr>option_lists := Some ol'\<rparr>)"
        using ok hd hd' ne' bne by (simp add: group_ok_def)
      then have "\<forall>kg \<in> set ?g'. group_ok kg"
        using g set_AList_update [of _ ?key "grp\<lparr>option_lists := Some ol'\<rparr>" grouped]
        unfolding groups_ok_def by blast
      then have "groups_ok ?g'"
        using g by (simp add: groups_ok_def distinct_update)
      ultimately show ?thesis by blast
    qed
  qed
qed

lemma merge_loop_ok:
  "groups_ok grouped \<Longrightarrow> \<forall>p \<in> set ps. counted p \<Longrightarrow>
   \<exists>grouped'. merge_loop grouped ps = Inr grouped' \<and> groups_ok grouped'"
proof (induction ps arbitrary: grouped)
  case Nil
  then show ?case by simp
next
  case (Cons p ps)
  from merge_step_ok [OF Cons.prems(1), of p] Cons.prems(2)
  obtain g1 where s: "merge_step grouped p = Inr g1" and ok: "groups_ok g1" by auto
  from Cons.IH [OF ok] Cons.prems(2)
  obtain g2 where "merge_loop g1 ps = Inr g2" "groups_ok g2" by auto
  with s show ?case by simp
qed

lemma finish_group_ok:
  assumes "group_ok (k, g)"
  shows "merge_key_of (finish_group g) = k" and "counted (finish_group g)"
    and "transfer_details (finish_group g) = transfer_details (base g)"
proof -
  show d: "transfer_details (finish_group g) = transfer_details (base g)"
  proof (cases "option_lists g")
    case None
    then show ?thesis by (simp add: finish_group_def)
  next
    case (Some ol)
    with assms have hd: "map hd ol = transfer_details (base g)" and ne: "[] \<notin> set ol"
      by (simp_all add: group_ok_def)
    from ne have "filter (\<lambda>optionList. length optionList > 0) ol = ol"
      by (auto simp: filter_id_conv)
    then show ?thesis
      using Some hd by (simp add: finish_group_def)
  qed
  have c: "transfer_count (finish_group g) = transfer_count (base g)"
    by (simp add: finish_group_def split: option.splits)
  show "counted (finish_group g)"
    using assms d c by (simp add: group_ok_def counted_def)
  have "merge_key_of (finish_group g) = merge_key_of (base g)"
    using d c by (simp add: merge_key_of_def transferCount_of_def finish_group_def split: option.splits)
  then show "merge_key_of (finish_group g) = k"
    using assms by (simp add: group_ok_def)
qed

lemma enumerate_map:
  "enumerate n (map f xs) = map (\<lambda>(i, x). (i, f x)) (enumerate n xs)"
  by (induction xs arbitrary: n) simp_all

lemma finish_first_group: "finish_group (first_group m) = representative_options m"
proof (cases "transfer_details m = []")
  case True
  then show ?thesis
    by (simp add: finish_group_def first_group_def representative_options_def)
next
  case False
  have "filter (\<lambda>l. 0 < length l) (map (\<lambda>d. [d]) (transfer_details m)) = map (\<lambda>d. [d]) (transfer_details m)"
    by (simp add: filter_id_conv)
  moreover have "filter (\<lambda>option. 0 < length (options option))
          (map (\<lambda>(idx, l). \<lparr>step = idx + 1, options = l\<rparr>)
             (enumerate 0 (map (\<lambda>d. [d]) (transfer_details m)))) =
        map (\<lambda>(idx, d). \<lparr>step = idx + 1, options = [d]\<rparr>) (enumerate 0 (transfer_details m))"
    by (simp add: enumerate_map filter_id_conv comp_def case_prod_beta)
  ultimately show ?thesis
    using False
    by (simp add: finish_group_def first_group_def representative_options_def comp_def)
qed

lemma merge_step_fresh:
  assumes "merge_key_of m \<notin> fst ` set grouped" and "counted m"
  shows "merge_step grouped m = Inr (grouped @ [(merge_key_of m, first_group m)])"
proof -
  have n: "map_of grouped (merge_key_of m) = None"
    using assms(1) by (simp add: map_of_eq_None_iff)
  have tc: "transferCount_of m = int (length (transfer_details m))"
    using assms(2) by (rule transferCount_of_counted)
  show ?thesis
    using n tc by (simp add: merge_step_def Let_def first_group_def push_first_fresh)
qed

lemma merge_loop_distinct:
  "distinct (map merge_key_of ms) \<Longrightarrow> \<forall>m \<in> set ms. counted m \<Longrightarrow>
   merge_key_of ` set ms \<inter> fst ` set grouped = {} \<Longrightarrow>
   merge_loop grouped ms = Inr (grouped @ map (\<lambda>m. (merge_key_of m, first_group m)) ms)"
proof (induction ms arbitrary: grouped)
  case Nil
  then show ?case by simp
next
  case (Cons m ms)
  have s: "merge_step grouped m = Inr (grouped @ [(merge_key_of m, first_group m)])"
    using Cons.prems by (intro merge_step_fresh) auto
  have "merge_key_of ` set ms \<inter> fst ` set (grouped @ [(merge_key_of m, first_group m)]) = {}"
    using Cons.prems by auto
  with Cons.IH [of "grouped @ [(merge_key_of m, first_group m)]"] Cons.prems
  have "merge_loop (grouped @ [(merge_key_of m, first_group m)]) ms =
          Inr ((grouped @ [(merge_key_of m, first_group m)]) @ map (\<lambda>m. (merge_key_of m, first_group m)) ms)"
    by simp
  with s show ?case by simp
qed

lemma merge_distinct:
  assumes "distinct (map merge_key_of ms)" and "\<forall>m \<in> set ms. counted m"
  shows "mergePathsByTrainSequence ms = Inr (map representative_options ms)"
  using merge_loop_distinct [OF assms, of "[]"]
  by (simp add: mergePathsByTrainSequence_def comp_def finish_first_group)

lemma representative_options_key: "merge_key_of (representative_options m) = merge_key_of m"
  by (simp add: representative_options_def merge_key_of_def transferCount_of_def)

lemma representative_options_counted: "counted (representative_options m) = counted m"
  by (simp add: representative_options_def counted_def)

lemma representative_options_idem:
  "representative_options (representative_options m) = representative_options m"
  by (simp add: representative_options_def)

lemma merge_output_shape:
  assumes "\<forall>p \<in> set ps. counted p"
  shows "\<exists>ms. mergePathsByTrainSequence ps = Inr ms \<and> distinct (map merge_key_of ms) \<and>
              (\<forall>m \<in> set ms. counted m)"
proof -
  have "groups_ok []" by (simp add: groups_ok_def)
  from merge_loop_ok [OF this assms] obtain g where
    l: "merge_loop [] ps = Inr g" and ok: "groups_ok g" by blast
  let ?ms = "map (\<lambda>(key, grp). finish_group grp) g"
  have m: "mergePathsByTrainSequence ps = Inr ?ms"
    using l by (simp add: mergePathsByTrainSequence_def)
  have "\<forall>kg \<in> set g. merge_key_of (finish_group (snd kg)) = fst kg"
    using ok finish_group_ok(1) unfolding groups_ok_def by (metis prod.collapse)
  then have "map merge_key_of ?ms = map fst g"
    by (auto simp: case_prod_beta)
  moreover have "distinct (map fst g)"
    using ok by (simp add: groups_ok_def)
  ultimately have "distinct (map merge_key_of ?ms)"
    by (simp only:)
  moreover have "\<forall>kg \<in> set g. counted (finish_group (snd kg))"
    using ok finish_group_ok(2) unfolding groups_ok_def by (metis prod.collapse)
  then have "\<forall>m \<in> set ?ms. counted m"
    by (auto simp: case_prod_beta)
  ultimately show ?thesis using m by blast
qed

lemmas merge_eval = mergePathsByTrainSequence_def merge_step_def merge_key_of_def transferCount_of_def
  finish_group_def via_Y_def via_W_def one_change_def change_at_def merged_Y_W_def Let_def representative_options_def

text \<open>
  C5 (as stated): merging the output of a merge gives the same merged paths, including
  \<open>transfer_options\<close>. The two sample itineraries share one key and differ in their
  transfer detail; the first merge records both options for step 1, and merging that
  output rebuilds \<open>transfer_options\<close> from \<open>transfer_details\<close> alone, which leaves one.
\<close>

theorem merge_not_idempotent_counterexample:
  "mergePathsByTrainSequence [via_Y, via_W] = Inr [merged_Y_W] \<and>
   mergePathsByTrainSequence [merged_Y_W] \<noteq> Inr [merged_Y_W]"
  by (simp add: merge_eval)

text \<open>
  C5 (amended): for every list of path summaries whose \<open>transfer_count\<close> is the number of
  their transfer details (as the enumerator emits them), the merge succeeds, and merging
  its output gives the same paths in the same order with every field unchanged except
  \<open>transfer_options\<close>, where each step keeps only the option recorded in
  \<open>transfer_details\<close>. From the second application on the merge is idempotent.
\<close>

theorem merge_twice:
  assumes "\<forall>p \<in> set ps. transfer_count p = int (length (transfer_details p))"
  shows "\<exists>ms. mergePathsByTrainSequence ps = Inr ms \<and>
              mergePathsByTrainSequence ms = Inr (map representative_options ms) \<and>
              mergePathsByTrainSequence (map representative_options ms) =
                Inr (map representative_options ms)"
proof -
  from assms have "\<forall>p \<in> set ps. counted p" by (simp add: counted_def)
  from merge_output_shape [OF this] obtain ms where
    m: "mergePathsByTrainSequence ps = Inr ms" and d: "distinct (map merge_key_of ms)"
    and c: "\<forall>m \<in> set ms. counted m" by blast
  have second: "mergePathsByTrainSequence ms = Inr (map representative_options ms)"
    using d c by (rule merge_distinct)
  have "distinct (map merge_key_of (map representative_options ms))"
    using d by (simp add: comp_def representative_options_key)
  moreover have "\<forall>m \<in> set (map representative_options ms). counted m"
    using c by (simp add: representative_options_counted)
  ultimately have "mergePathsByTrainSequence (map representative_options ms) =
      Inr (map representative_options (map representative_options ms))"
    by (rule merge_distinct)
  then have third: "mergePathsByTrainSequence (map representative_options ms) =
      Inr (map representative_options ms)"
    by (simp add: comp_def representative_options_idem)
  from m second third show ?thesis by blast
qed

theorem merge_twice_witness:
  "mergePathsByTrainSequence [via_Y, via_W] = Inr [merged_Y_W] \<and>
   mergePathsByTrainSequence [merged_Y_W] = Inr [representative_options merged_Y_W] \<and>
   mergePathsByTrainSequence [representative_options merged_Y_W] = Inr [representative_options merged_Y_W]"
proof -
  have h: "\<forall>p \<in> set [via_Y, via_W]. transfer_count p = int (length (transfer_details p))"
    by (simp add: via_Y_def via_W_def one_change_def)
  have e: "mergePathsByTrainSequence [via_Y, via_W] = Inr [merged_Y_W]"
    by (simp add: merge_eval)
  from merge_twice [OF h] e show ?thesis by simp
qed

section \<open>Properties of the enumerator\<close>

lemma end_of_snoc [simp]: "end_of s (eh @ [h]) = h_to h"
  by (simp add: end_of_def)

lemma chain_snoc:
  "chain C s (eh @ [h]) \<longleftrightarrow>
     chain C s eh \<and> h_from h = end_of s eh \<and> end_of s eh < length (nodes C) \<and>
     h_to h < length (nodes C) \<and> 0 < h_duration h \<and> edge_of h \<in> set (neighbors C (end_of s eh))"
proof (induction eh arbitrary: s)
  case Nil
  then show ?case by (auto simp: end_of_def)
next
  case (Cons a eh)
  have "end_of s (a # eh) = end_of (h_to a) eh"
    by (simp add: end_of_def)
  with Cons show ?case by auto
qed

lemma trains_along_snoc:
  "trains_along ns s (eh @ [h]) = nextTrainSequence (trains_along ns s eh) (node_train (ns ! h_to h))"
  by (simp add: trains_along_def)

lemma total_duration_snoc: "total_duration (eh @ [h]) = total_duration eh + h_duration h"
  by (simp add: total_duration_def)

lemma edge_of_history_entry: "edge_of (history_entry cur edge) = edge"
  by (simp add: edge_of_def history_entry_def)

lemma grows_by_refl: "grows_by Q S S"
  by (simp add: grows_by_def)

lemma grows_by_trans: "grows_by Q S S1 \<Longrightarrow> grows_by Q S1 S2 \<Longrightarrow> grows_by Q S S2"
  by (auto simp: grows_by_def)

lemma grows_by_skipped:
  "grows_by Q (S\<lparr>skipped_same_station_transfers := n\<rparr>) S' \<Longrightarrow> grows_by Q S S'"
  by (simp add: grows_by_def)

lemma emit_grows:
  assumes "direction_checked C p \<Longrightarrow> Q p"
  shows "grows_by Q S (emit C p S)"
proof (cases "emit C p S = S")
  case True
  then show ?thesis by (simp add: grows_by_refl)
next
  case False
  then have e: "emit C p S = S\<lparr>service_paths := service_paths S @ [p]\<rparr>" and d: "direction_checked C p"
    by (auto simp: emit_def direction_checked_def split: if_splits option.splits)
  from assms [OF d] show ?thesis
    unfolding e by (simp add: grows_by_def)
qed

lemma dfs_emits:
  "chain C s eh \<Longrightarrow> cur = end_of s eh \<Longrightarrow> t = st + total_duration eh \<Longrightarrow>
   ts = trains_along (nodes C) s eh \<Longrightarrow>
   dfs C cur t used path eh ts st lts S = Inr S' \<Longrightarrow>
   grows_by (\<lambda>p. \<exists>eh'. emitted_by C s st eh' p) S S'"
  and explore_emits:
  "chain C s eh \<Longrightarrow> cur = end_of s eh \<Longrightarrow> t = st + total_duration eh \<Longrightarrow>
   ts = trains_along (nodes C) s eh \<Longrightarrow> set edges \<subseteq> set (neighbors C cur) \<Longrightarrow>
   explore C edges cur t used path eh ts st lts S = Inr S' \<Longrightarrow>
   grows_by (\<lambda>p. \<exists>eh'. emitted_by C s st eh' p) S S'"
proof (induction C cur t used path eh ts st lts S and C edges cur t used path eh ts st lts S
       arbitrary: S' and S' rule: dfs_explore.induct)
  case (1 C cur t used path eh ts st lts S)
  let ?Q = "\<lambda>p. \<exists>eh'. emitted_by C s st eh' p"
  from "1.prems"(5) have valid: "cur < length (nodes C)"
    by (subst (asm) dfs.simps) (auto split: if_splits)
  show ?case
  proof (cases "node_station (nodes C ! cur) = endStation C \<and> length eh > 0")
    case True
    with "1.prems"(5) valid obtain p where
      sp: "summarizePath (nodes C) eh ts st t (trainInfo C) = Inr p" and S': "S' = emit C p S"
      by (subst (asm) dfs.simps) (auto split: sum.splits)
    have "direction_checked C p \<Longrightarrow> ?Q p"
      using True "1.prems"(1-4) sp unfolding emitted_by_def by auto
    then show ?thesis unfolding S' by (rule emit_grows)
  next
    case False
    with "1.prems"(5) valid have
      "explore C (neighbors C cur) cur t used path eh ts st lts S = Inr S'"
      by (subst (asm) dfs.simps) (auto split: if_splits)
    with "1.IH" [OF _ False "1.prems"(1-4)] valid show ?thesis by simp
  qed
next
  case (2 C cur t used path eh ts st lts S)
  then show ?case by (simp add: grows_by_refl)
next
  case (3 C edge edges cur t used path eh ts st lts S)
  let ?Q = "\<lambda>p. \<exists>eh'. emitted_by C s st eh' p"
  note prems = "3.prems"
  from prems(5) have sub: "set edges \<subseteq> set (neighbors C cur)" and mem: "edge \<in> set (neighbors C cur)"
    by auto
  note run = prems(6) [unfolded explore.simps(2) [of C edge edges]]
  show ?case
  proof (cases "e_to edge \<in> set path")
    case True
    with run have "explore C edges cur t used path eh ts st lts S = Inr S'" by simp
    from "3.IH"(1) [OF True prems(1-4) sub this] show ?thesis .
  next
    case c1: False
    show ?thesis
    proof (cases "e_to edge < length (nodes C) \<and> cur < length (nodes C)")
      case False
      with run c1 show ?thesis by simp
    next
      case c2: True
      then have c2': "\<not> \<not> (e_to edge < length (nodes C) \<and> cur < length (nodes C))" by simp
      show ?thesis
      proof (cases "e_duration edge \<le> 0")
        case True
        with run c1 c2 have "explore C edges cur t used path eh ts st lts S = Inr S'" by simp
        from "3.IH"(2) [OF c1 c2' True prems(1-4) sub this] show ?thesis .
      next
        case c3: False
        show ?thesis
        proof (cases "skip_same_station C cur lts edge")
          case True
          with run c1 c2 c3 have
            "explore C edges cur t used path eh ts st lts
               (S\<lparr>skipped_same_station_transfers := skipped_same_station_transfers S + 1\<rparr>) = Inr S'"
            by simp
          from "3.IH"(3) [OF c1 c2' c3 True prems(1-4) sub this] show ?thesis
            by (rule grows_by_skipped)
        next
          case c4: False
          show ?thesis
          proof (cases "nextTransfers C cur used edge > maxTransfers C")
            case True
            with run c1 c2 c3 c4 have "explore C edges cur t used path eh ts st lts S = Inr S'"
              by simp
            from "3.IH"(4) [OF c1 c2' c3 c4 True prems(1-4) sub this] show ?thesis .
          next
            case c5: False
            let ?h = "history_entry cur edge"
            let ?lts = "if isTransferNow C cur edge then Some (node_station (nodes C ! cur)) else lts"
            from run c1 c2 c3 c4 c5 obtain S1 where
              d: "dfs C (e_to edge) (t + e_duration edge) (nextTransfers C cur used edge)
                    (path @ [e_to edge]) (eh @ [?h])
                    (nextTrainSequence ts (node_train (nodes C ! e_to edge))) st ?lts S = Inr S1"
              and e: "explore C edges cur t used path eh ts st lts S1 = Inr S'"
              by (auto split: sum.splits)
            have ch: "chain C s (eh @ [?h])"
              using prems(1,2) c2 c3 mem
              by (simp add: chain_snoc edge_of_history_entry) (simp add: history_entry_def)
            have en: "e_to edge = end_of s (eh @ [?h])"
              by (simp add: history_entry_def)
            have tt: "t + e_duration edge = st + total_duration (eh @ [?h])"
              using prems(3) by (simp add: total_duration_snoc history_entry_def)
            have tr: "nextTrainSequence ts (node_train (nodes C ! e_to edge)) =
                        trains_along (nodes C) s (eh @ [?h])"
              using prems(4) by (simp add: trains_along_snoc history_entry_def)
            from "3.IH"(5) [OF c1 c2' c3 c4 c5 ch en tt tr d]
            have g1: "grows_by ?Q S S1" .
            from "3.IH"(6) [OF c1 c2' c3 c4 c5 d prems(1-4) sub e]
            have g2: "grows_by ?Q S1 S'" .
            from g1 g2 show ?thesis by (rule grows_by_trans)
          qed
        qed
      qed
    qed
  qed
qed

section \<open>Properties of the enumerated paths\<close>

lemma grows_by_mono:
  assumes "\<And>p. Q p \<Longrightarrow> Q' p" and "grows_by Q S S'"
  shows "grows_by Q' S S'"
proof -
  from assms(2) obtain new where n: "service_paths S' = service_paths S @ new"
    and q: "\<forall>p \<in> set new. Q p"
    unfolding grows_by_def by blast
  from q assms(1) have "\<forall>p \<in> set new. Q' p" by blast
  with n show ?thesis unfolding grows_by_def by blast
qed

lemma start_loop_emits:
  "\<forall>s \<in> set starts. node_station (nodes C ! s) = startStation \<Longrightarrow>
   start_loop C starts S = Inr S' \<Longrightarrow>
   grows_by (\<lambda>p. \<exists>s st eh. s < length (nodes C) \<and> node_station (nodes C ! s) = startStation \<and>
                parseTime (node_time (nodes C ! s)) = Some st \<and> emitted_by C s st eh p) S S'"
proof (induction starts arbitrary: S)
  case Nil
  then show ?case by (simp add: grows_by_refl)
next
  case (Cons s starts)
  let ?Q = "\<lambda>p. \<exists>s st eh. s < length (nodes C) \<and> node_station (nodes C ! s) = startStation \<and>
                parseTime (node_time (nodes C ! s)) = Some st \<and> emitted_by C s st eh p"
  have v: "s < length (nodes C)"
    using Cons.prems(2) by (simp split: if_splits)
  with Cons.prems(2) obtain st where pt: "parseTime (node_time (nodes C ! s)) = Some st"
    by (cases "parseTime (node_time (nodes C ! s))") simp_all
  with v Cons.prems(2) obtain S1 where
    d: "dfs C s st 0 [s] [] [node_train (nodes C ! s)] st None S = Inr S1"
    and r: "start_loop C starts S1 = Inr S'"
    by (cases "dfs C s st 0 [s] [] [node_train (nodes C ! s)] st None S") simp_all
  have g0: "grows_by (\<lambda>p. \<exists>eh'. emitted_by C s st eh' p) S S1"
    by (rule dfs_emits [OF _ _ _ _ d])
       (simp_all add: end_of_def total_duration_def trains_along_def)
  have st: "node_station (nodes C ! s) = startStation"
    using Cons.prems(1) by simp
  have g1: "grows_by ?Q S S1"
  proof (rule grows_by_mono [OF _ g0])
    fix p assume "\<exists>eh'. emitted_by C s st eh' p"
    then obtain eh' where "emitted_by C s st eh' p" ..
    with v st pt show "?Q p" by blast
  qed
  from Cons.prems(1) have "\<forall>s \<in> set starts. node_station (nodes C ! s) = startStation" by simp
  from Cons.IH [OF this r] have g2: "grows_by ?Q S1 S'" .
  from g1 g2 show ?case by (rule grows_by_trans)
qed

lemma set_insert_sorted: "set (insert_sorted cmp x xs) = insert x (set xs)"
  by (induction xs) auto

lemma set_array_sort: "set (array_sort cmp xs) = set xs"
  unfolding array_sort_def by (induction xs) (simp_all add: set_insert_sorted)

lemma assign_ids_mem:
  "p \<in> set (assign_ids ps) \<Longrightarrow> \<exists>q k. q \<in> set ps \<and> p = q\<lparr>path_id := Some k\<rparr>"
  unfolding assign_ids_def by (auto simp: enumerate_eq_zip dest!: set_zip_rightD)

lemma nodes_search_of [simp]: "nodes (search_of ns adj endSt ti dm opts) = ns"
  by (simp add: search_of_def)

lemma findAllPaths_enumerated:
  assumes "findAllPaths ns adj startStation endSt ti dm opts = Inr ps" and "p \<in> set ps"
  shows "\<exists>q k s st eh. p = q\<lparr>path_id := Some k\<rparr> \<and>
           enumerated ns adj startStation endSt ti dm opts s st eh q"
proof -
  let ?C = "search_of ns adj endSt ti dm opts"
  let ?fresh = "\<lparr>service_paths = [], skipped_same_station_transfers = 0\<rparr>"
  from assms obtain S where
    sl: "start_loop ?C (startNodes ns startStation) ?fresh = Inr S"
    and ps: "ps = assign_ids (array_sort compare_paths (service_paths S))"
    by (auto simp: findAllPaths_def run_search_def Let_def split: if_splits sum.splits)
  have "\<forall>s \<in> set (startNodes ns startStation). node_station (nodes ?C ! s) = startStation"
    by (simp add: startNodes_def)
  from start_loop_emits [OF this sl]
  have g: "\<forall>q \<in> set (service_paths S). \<exists>s st eh. enumerated ns adj startStation endSt ti dm opts s st eh q"
    by (auto simp: grows_by_def enumerated_def)
  from assms(2) ps obtain q k where
    "q \<in> set (service_paths S)" and "p = q\<lparr>path_id := Some k\<rparr>"
    using assign_ids_mem set_array_sort by metis
  with g show ?thesis by blast
qed

lemma chain_edges:
  "chain C s eh \<Longrightarrow> h \<in> set eh \<Longrightarrow>
   h_from h < length (nodes C) \<and> h_to h < length (nodes C) \<and> 0 < h_duration h \<and>
   edge_of h \<in> set (neighbors C (h_from h))"
  by (induction eh arbitrary: s) auto

lemma total_duration_nonneg: "chain C s eh \<Longrightarrow> 0 \<le> total_duration eh"
  unfolding total_duration_def
  by (induction eh arbitrary: s) auto

lemma summarize_loop_chain:
  "chain C s eh \<Longrightarrow>
   \<exists>ds. summarize_loop (nodes C) eh t acc = Inr (t + total_duration eh, acc @ ds) \<and>
        length ds = length (filter (\<lambda>h. h_type h = ''transfer'') eh)"
proof (induction eh arbitrary: s t acc)
  case Nil
  then show ?case by (simp add: total_duration_def)
next
  case (Cons h eh)
  then have c: "chain C (h_to h) eh" and v: "h_from h < length (nodes C)" by simp_all
  show ?case
  proof (cases "h_type h = ''transfer''")
    case True
    let ?d = "\<lparr>td_station = node_station (nodes C ! h_from h), td_arrival_time = toTime t,
               td_departure_time = toTime (t + h_duration h), td_wait_minutes = h_duration h\<rparr>"
    from Cons.IH [OF c, of "t + h_duration h" "acc @ [?d]"] obtain ds where
      "summarize_loop (nodes C) eh (t + h_duration h) (acc @ [?d]) =
         Inr (t + h_duration h + total_duration eh, (acc @ [?d]) @ ds)"
      and "length ds = length (filter (\<lambda>h. h_type h = ''transfer'') eh)" by blast
    then have "summarize_loop (nodes C) (h # eh) t acc =
                 Inr (t + total_duration (h # eh), acc @ (?d # ds)) \<and>
               length (?d # ds) = length (filter (\<lambda>h. h_type h = ''transfer'') (h # eh))"
      using True v by (simp add: total_duration_def)
    then show ?thesis by blast
  next
    case False
    from Cons.IH [OF c, of "t + h_duration h" acc] obtain ds where
      "summarize_loop (nodes C) eh (t + h_duration h) acc =
         Inr (t + h_duration h + total_duration eh, acc @ ds)"
      and "length ds = length (filter (\<lambda>h. h_type h = ''transfer'') eh)" by blast
    then have "summarize_loop (nodes C) (h # eh) t acc = Inr (t + total_duration (h # eh), acc @ ds) \<and>
               length ds = length (filter (\<lambda>h. h_type h = ''transfer'') (h # eh))"
      using False by (simp add: total_duration_def)
    then show ?thesis by blast
  qed
qed

lemma summarizePath_chain:
  assumes c: "chain C s eh"
    and sp: "summarizePath (nodes C) eh ts st (st + total_duration eh) ti = Inr p"
  shows "transfer_count p = int (length (transfer_details p))"
    and "length (transfer_details p) = length (filter (\<lambda>h. h_type h = ''transfer'') eh)"
    and "total_minutes p = total_duration eh"
    and "departure_time p = toTime st"
    and "arrival_time p = toTime (st + total_duration eh)"
    and "train_sequence p = ts"
proof -
  from summarize_loop_chain [OF c, of st "[]"] obtain ds where
    l: "summarize_loop (nodes C) eh st [] = Inr (st + total_duration eh, ds)"
    and n: "length ds = length (filter (\<lambda>h. h_type h = ''transfer'') eh)" by auto
  have nn: "0 \<le> total_duration eh" using c by (rule total_duration_nonneg)
  from sp l nn have p: "p = \<lparr>type = (if length ds > 0 then Transfer else Direct),
                   train_sequence = ts, transfer_details = ds,
                   departure_time = toTime st, arrival_time = toTime (st + total_duration eh),
                   total_time = formatDuration (total_duration eh),
                   total_minutes = total_duration eh,
                   is_fast = list_ex (\<lambda>trainId. ti trainId = Some True) ts,
                   transfer_count = int (length ds), path_id = None, transfer_options = None\<rparr>"
    by (simp add: summarizePath_def Let_def)
  show "transfer_count p = int (length (transfer_details p))" by (simp add: p)
  show "length (transfer_details p) = length (filter (\<lambda>h. h_type h = ''transfer'') eh)"
    by (simp add: p n)
  show "total_minutes p = total_duration eh" by (simp add: p)
  show "departure_time p = toTime st" by (simp add: p)
  show "arrival_time p = toTime (st + total_duration eh)" by (simp add: p)
  show "train_sequence p = ts" by (simp add: p)
qed

lemma trains_along_chain:
  "chain C s eh \<Longrightarrow>
   trains_along (nodes C) s eh \<noteq> [] \<and>
   last (trains_along (nodes C) s eh) = node_train (nodes C ! end_of s eh) \<and>
   length (trains_along (nodes C) s eh) =
     Suc (length (filter (\<lambda>h. node_train (nodes C ! h_to h) \<noteq> node_train (nodes C ! h_from h)) eh))"
proof (induction eh rule: rev_induct)
  case Nil
  then show ?case by (simp add: trains_along_def end_of_def)
next
  case (snoc h eh)
  from snoc.prems have c: "chain C s eh" and f: "h_from h = end_of s eh"
    by (simp_all add: chain_snoc)
  from snoc.IH [OF c] have ne: "trains_along (nodes C) s eh \<noteq> []"
    and la: "last (trains_along (nodes C) s eh) = node_train (nodes C ! h_from h)"
    and le: "length (trains_along (nodes C) s eh) =
       Suc (length (filter (\<lambda>h. node_train (nodes C ! h_to h) \<noteq> node_train (nodes C ! h_from h)) eh))"
    using f by simp_all
  show ?case
    using ne la le by (simp add: trains_along_snoc nextTrainSequence_def)
qed

lemma neighbors_search_of:
  "neighbors (search_of ns adj endSt ti dm opts) i = (case adj i of None \<Rightarrow> [] | Some es \<Rightarrow> es)"
  by (simp add: neighbors_def search_of_def)

lemma transfer_edges_are_changes:
  assumes w: "transfers_change_trains ns adj"
    and c: "chain (search_of ns adj endSt ti dm opts) s eh"
  shows "filter (\<lambda>h. h_type h = ''transfer'') eh =
         filter (\<lambda>h. node_train (ns ! h_to h) \<noteq> node_train (ns ! h_from h)) eh"
proof (rule filter_cong [OF refl])
  fix h assume "h \<in> set eh"
  from chain_edges [OF c this] have
    f: "h_from h < length ns" and t: "h_to h < length ns"
    and e: "edge_of h \<in> set (case adj (h_from h) of None \<Rightarrow> [] | Some es \<Rightarrow> es)"
    by (simp_all add: neighbors_search_of)
  have i: "h_from h \<in> set [0..<length ns]" using f by simp
  have t': "e_to (edge_of h) < length ns" using t by (simp add: edge_of_def)
  have "(e_type (edge_of h) = ''transfer'') =
      (node_train (ns ! e_to (edge_of h)) \<noteq> node_train (ns ! h_from h))"
    by (rule w [unfolded transfers_change_trains_def, rule_format, OF i e t'])
  then show "(h_type h = ''transfer'') = (node_train (ns ! h_to h) \<noteq> node_train (ns ! h_from h))"
    by (simp add: edge_of_def)
qed

lemma enumerated_counts:
  assumes "enumerated ns adj startStation endSt ti dm opts s st eh q"
  shows "transfer_count q = int (length (transfer_details q))"
    and "transfers_change_trains ns adj \<Longrightarrow> transfer_count q = int (length (train_sequence q)) - 1"
proof -
  let ?C = "search_of ns adj endSt ti dm opts"
  from assms have c: "chain ?C s eh"
    and sp: "summarizePath ns eh (trains_along ns s eh) st (st + total_duration eh) ti = Inr q"
    by (simp_all add: enumerated_def emitted_by_def search_of_def)
  have sp': "summarizePath (nodes ?C) eh (trains_along ns s eh) st (st + total_duration eh) ti = Inr q"
    using sp by simp
  note facts = summarizePath_chain [OF c sp']
  show tc: "transfer_count q = int (length (transfer_details q))" by (rule facts(1))
  assume w: "transfers_change_trains ns adj"
  have "length (transfer_details q) =
          length (filter (\<lambda>h. node_train (ns ! h_to h) \<noteq> node_train (ns ! h_from h)) eh)"
    using facts(2) transfer_edges_are_changes [OF w c] by simp
  moreover have "length (train_sequence q) =
          Suc (length (filter (\<lambda>h. node_train (ns ! h_to h) \<noteq> node_train (ns ! h_from h)) eh))"
    using trains_along_chain [OF c] facts(6) by simp
  ultimately show "transfer_count q = int (length (train_sequence q)) - 1"
    using tc by simp
qed

text \<open>
  C6 (amended): every summary the enumerator emits has \<open>transfer_count\<close> equal to the
  length of \<open>transfer_details\<close>; it also equals the length of \<open>train_sequence\<close> minus one
  whenever the graph is such that an adjacency entry has type \<open>transfer\<close> exactly when it
  joins nodes of different trains.
\<close>

theorem findAllPaths_transfer_count:
  assumes "findAllPaths ns adj startStation endSt ti dm opts = Inr ps" and "p \<in> set ps"
  shows "transfer_count p = int (length (transfer_details p)) \<and>
         (transfers_change_trains ns adj \<longrightarrow>
            transfer_count p = int (length (train_sequence p)) - 1)"
proof -
  from findAllPaths_enumerated [OF assms] obtain q k s st eh where
    p: "p = q\<lparr>path_id := Some k\<rparr>"
    and e: "enumerated ns adj startStation endSt ti dm opts s st eh q" by blast
  from enumerated_counts [OF e] show ?thesis by (simp add: p)
qed

lemma cross_search:
  "findAllPaths cross_nodes cross_adjacency ''A'' ''B'' no_train_info None no_options = Inr [cross_path]"
  by code_simp

lemma change_search:
  "findAllPaths change_nodes change_adjacency ''X'' ''Z'' no_train_info None no_options = Inr [change_path]"
  by code_simp

lemma change_wf: "transfers_change_trains change_nodes change_adjacency"
  by code_simp

text \<open>
  C6 (as stated): every summary the enumerator emits has \<open>transfer_count\<close> equal to the
  length of \<open>train_sequence\<close> minus one. The search counts an edge between nodes of
  different trains as a transfer and extends the train sequence, while \<open>summarizePath\<close>
  counts only the edges of type \<open>transfer\<close>: on a graph with a \<open>travel\<close> edge from a node
  of T1 to a node of T2 the emitted path has two trains and \<open>transfer_count\<close> 0.
\<close>

theorem findAllPaths_transfer_count_counterexample:
  "findAllPaths cross_nodes cross_adjacency ''A'' ''B'' no_train_info None no_options = Inr [cross_path] \<and>
   transfer_count cross_path = 0 \<and> int (length (train_sequence cross_path)) - 1 = 1"
  using cross_search by (simp add: cross_path_def)

theorem findAllPaths_transfer_count_witness:
  "findAllPaths change_nodes change_adjacency ''X'' ''Z'' no_train_info None no_options = Inr [change_path] \<and>
   transfers_change_trains change_nodes change_adjacency \<and>
   transfer_count change_path = int (length (transfer_details change_path)) \<and>
   transfer_count change_path = int (length (train_sequence change_path)) - 1"
proof -
  have m: "change_path \<in> set [change_path]" by simp
  from findAllPaths_transfer_count [OF change_search m] change_search change_wf
  show ?thesis by simp
qed

lemma Number_nonneg: "Number s = Some a \<Longrightarrow> 0 \<le> a"
  by (auto simp: Number_def)

lemma parseTime_nonneg:
  assumes "parseTime s = Some n"
  shows "0 \<le> n"
proof (cases "s = [] \<or> s = ''00:00''")
  case True
  with assms show ?thesis by (auto simp: parseTime_def)
next
  case False
  with assms obtain hours minutes rest h m where
    "Number hours = Some h" "Number minutes = Some m" "n = h * 60 + m"
    unfolding parseTime_def by (auto split: list.splits option.splits)
  then show ?thesis
    using Number_nonneg [of hours h] Number_nonneg [of minutes m] by simp
qed

lemma clock_congruence:
  assumes "0 \<le> t"
  shows "\<exists>a. parseTime (toTime t) = Some a \<and> a mod 1440 = t mod 1440"
proof (cases "t mod 1440 = 0")
  case True
  then show ?thesis using parseTime_toTime [OF assms] by simp
next
  case False
  then show ?thesis using parseTime_toTime [OF assms] by simp
qed

lemma difference_congruence:
  "(a::int) mod n = x mod n \<Longrightarrow> d mod n = y mod n \<Longrightarrow> (a - d) mod n = (x - y) mod n"
  by (rule mod_diff_cong)

lemma enumerated_times:
  assumes "enumerated ns adj startStation endSt ti dm opts s st eh q"
  shows "total_minutes q = total_duration eh"
    and "0 \<le> total_minutes q"
    and "\<exists>a d. parseTime (arrival_time q) = Some a \<and> parseTime (departure_time q) = Some d \<and>
               (a - d) mod 1440 = total_minutes q mod 1440"
proof -
  let ?C = "search_of ns adj endSt ti dm opts"
  from assms have c: "chain ?C s eh"
    and pt: "parseTime (node_time (ns ! s)) = Some st"
    and sp: "summarizePath (nodes ?C) eh (trains_along ns s eh) st (st + total_duration eh) ti = Inr q"
    by (simp_all add: enumerated_def emitted_by_def search_of_def)
  note facts = summarizePath_chain [OF c sp]
  have st: "0 \<le> st" using pt by (rule parseTime_nonneg)
  have tot: "0 \<le> total_duration eh" using c by (rule total_duration_nonneg)
  show tm: "total_minutes q = total_duration eh" by (rule facts(3))
  show "0 \<le> total_minutes q" using tm tot by simp
  from st tot have "0 \<le> st + total_duration eh" by simp
  from clock_congruence [OF this] obtain a where
    a: "parseTime (toTime (st + total_duration eh)) = Some a"
    and am: "a mod 1440 = (st + total_duration eh) mod 1440" by blast
  from clock_congruence [OF st] obtain d where
    d: "parseTime (toTime st) = Some d" and dm: "d mod 1440 = st mod 1440" by blast
  have "(a - d) mod 1440 = (st + total_duration eh - st) mod 1440"
    using am dm by (rule difference_congruence)
  then have "(a - d) mod 1440 = total_minutes q mod 1440"
    by (simp add: tm)
  with a d show "\<exists>a d. parseTime (arrival_time q) = Some a \<and> parseTime (departure_time q) = Some d \<and>
               (a - d) mod 1440 = total_minutes q mod 1440"
    by (simp add: facts(4,5))
qed

text \<open>
  C7 (amended): every summary the enumerator emits was built from an edge trace \<open>eh\<close>, a
  walk in the graph from a node of the start station, and its \<open>total_minutes\<close> is the sum
  of the durations of the edges of \<open>eh\<close>. \<open>total_minutes\<close> is congruent modulo 1440 to
  \<open>parse(arrival_time) - parse(departure_time)\<close>, and equals that difference reduced modulo
  1440 exactly when the itinerary is shorter than 1440 minutes.
\<close>

theorem findAllPaths_total_minutes:
  assumes "findAllPaths ns adj startStation endSt ti dm opts = Inr ps" and "p \<in> set ps"
  shows "\<exists>q k s st eh a d.
           p = q\<lparr>path_id := Some k\<rparr> \<and>
           enumerated ns adj startStation endSt ti dm opts s st eh q \<and>
           total_minutes p = total_duration eh \<and>
           parseTime (arrival_time p) = Some a \<and> parseTime (departure_time p) = Some d \<and>
           (a - d) mod 1440 = total_minutes p mod 1440 \<and>
           (if total_minutes p < 1440 then total_minutes p = (a - d) mod 1440
            else total_minutes p \<noteq> (a - d) mod 1440)"
proof -
  from findAllPaths_enumerated [OF assms] obtain q k s st eh where
    p: "p = q\<lparr>path_id := Some k\<rparr>"
    and e: "enumerated ns adj startStation endSt ti dm opts s st eh q" by blast
  from enumerated_times [OF e] obtain a d where
    tm: "total_minutes q = total_duration eh" and nn: "0 \<le> total_minutes q"
    and a: "parseTime (arrival_time q) = Some a" and d: "parseTime (departure_time q) = Some d"
    and c: "(a - d) mod 1440 = total_minutes q mod 1440" by blast
  have lt: "(a - d) mod 1440 < 1440" by simp
  have w: "if total_minutes q < 1440 then total_minutes q = (a - d) mod 1440
        else total_minutes q \<noteq> (a - d) mod 1440"
  proof (cases "total_minutes q < 1440")
    case True
    with nn have "total_minutes q mod 1440 = total_minutes q" by simp
    with c True show ?thesis by simp
  next
    case False
    with lt show ?thesis by auto
  qed
  have f1: "total_minutes p = total_duration eh" using tm by (simp add: p)
  have f2: "parseTime (arrival_time p) = Some a" using a by (simp add: p)
  have f3: "parseTime (departure_time p) = Some d" using d by (simp add: p)
  have f4: "(a - d) mod 1440 = total_minutes p mod 1440" using c by (simp add: p)
  have f5: "if total_minutes p < 1440 then total_minutes p = (a - d) mod 1440
        else total_minutes p \<noteq> (a - d) mod 1440"
    using w unfolding p by (simp only: path_summary.simps split: if_splits) auto
  from p e f1 f2 f3 f4 f5 show ?thesis by blast
qed

lemma overnight_search:
  "findAllPaths overnight_nodes overnight_adjacency ''X'' ''Z'' no_train_info None no_options =
     Inr [overnight_path]"
  by code_simp

lemma parse_0800: "parseTime ''08:00'' = Some 480"
  by code_simp

lemma parse_1000: "parseTime ''10:00'' = Some 600"
  by code_simp

lemma parse_0910: "parseTime ''09:10'' = Some 550"
  by code_simp

text \<open>
  C7 (as stated): \<open>total_minutes\<close> equals \<open>(parse(arrival_time) - parse(departure_time))
  mod 1440\<close>. An itinerary with an overnight wait lasts 1560 minutes, which the summary
  reports, while the clock difference between 08:00 and 10:00 is 120.
\<close>

theorem findAllPaths_total_minutes_counterexample:
  "findAllPaths overnight_nodes overnight_adjacency ''X'' ''Z'' no_train_info None no_options =
     Inr [overnight_path] \<and>
   parseTime (arrival_time overnight_path) = Some 600 \<and>
   parseTime (departure_time overnight_path) = Some 480 \<and>
   total_minutes overnight_path = 1560 \<and> (600 - 480) mod 1440 = (120::int)"
  using overnight_search by (simp add: overnight_path_def parse_0800 parse_1000)

theorem findAllPaths_total_minutes_witness:
  "findAllPaths change_nodes change_adjacency ''X'' ''Z'' no_train_info None no_options =
     Inr [change_path] \<and>
   total_minutes change_path = 70 \<and>
   parseTime (arrival_time change_path) = Some 550 \<and>
   parseTime (departure_time change_path) = Some 480 \<and>
   (\<exists>eh. total_minutes change_path = total_duration eh \<and> (550 - 480) mod 1440 = total_duration eh)"
proof -
  have m: "change_path \<in> set [change_path]" by simp
  have a: "parseTime (arrival_time change_path) = Some 550"
    and d: "parseTime (departure_time change_path) = Some 480"
    and t: "total_minutes change_path = 70"
    by (simp_all add: change_path_def one_change_def parse_0800 parse_0910)
  from findAllPaths_total_minutes [OF change_search m] obtain eh where
    "total_minutes change_path = total_duration eh"
    by blast
  with a d t change_search show ?thesis by auto
qed

lemma opposed_at:
  assumes "j < length a" and "j < length b"
    and "a ! j \<noteq> 0" and "b ! j \<noteq> 0" and "a ! j = - b ! j"
  shows "opposed a b"
proof -
  have "(a ! j, b ! j) \<in> set (zip a b)"
    using assms(1,2) by (subst in_set_zip) (rule exI [of _ j], simp)
  moreover have "case (a ! j, b ! j) of (x, y) \<Rightarrow> x \<noteq> 0 \<and> y \<noteq> 0 \<and> x = - y"
    using assms(3-5) by simp
  ultimately show ?thesis
    unfolding opposed_def list_ex_iff by (rule bexI [rotated])
qed

lemma direction_valid_pairs:
  "\<not> direction_invalid dm seq \<Longrightarrow> Suc i < length seq \<Longrightarrow>
   dm (seq ! i) = Some a \<Longrightarrow> dm (seq ! Suc i) = Some b \<Longrightarrow> \<not> opposed a b"
proof (induction seq arbitrary: i)
  case Nil
  then show ?case by simp
next
  case (Cons s seq)
  then obtain t rest where seq: "seq = t # rest" by (cases seq) auto
  show ?case
  proof (cases i)
    case 0
    with Cons.prems seq show ?thesis by (auto split: if_splits)
  next
    case (Suc i')
    have "\<not> direction_invalid dm seq"
      using Cons.prems(1) unfolding seq by (auto split: option.splits if_splits)
    from Cons.IH [OF this, of i'] Cons.prems Suc show ?thesis by simp
  qed
qed

text \<open>
  C9: in every path the enumerator emits with \<open>transfer_count \<ge> 1\<close>, for every pair of
  consecutive trains that both have a direction vector in the direction map, no line index
  \<open>j\<close> below both lengths has two non-zero entries with \<open>a[j] = -b[j]\<close>; for entries in
  \<open>{-1, 0, 1}\<close> this says that the signs never oppose. A path that fails the check is not
  pushed, so it is not in the output.
\<close>

theorem findAllPaths_direction_compatible:
  assumes "findAllPaths ns adj startStation endSt ti (Some dm) opts = Inr ps"
    and "p \<in> set ps" and "1 \<le> transfer_count p"
    and "Suc i < length (train_sequence p)"
    and "dm (train_sequence p ! i) = Some a" and "dm (train_sequence p ! Suc i) = Some b"
    and "j < length a" and "j < length b"
  shows "\<not> (a ! j \<noteq> 0 \<and> b ! j \<noteq> 0 \<and> a ! j = - b ! j) \<and>
         (\<bar>a ! j\<bar> \<le> 1 \<and> \<bar>b ! j\<bar> \<le> 1 \<longrightarrow> \<not> (a ! j < 0 \<and> 0 < b ! j \<or> 0 < a ! j \<and> b ! j < 0))"
proof -
  from findAllPaths_enumerated [OF assms(1,2)] obtain q k s st eh where
    p: "p = q\<lparr>path_id := Some k\<rparr>"
    and e: "enumerated ns adj startStation endSt ti (Some dm) opts s st eh q" by blast
  from e have "direction_checked (search_of ns adj endSt ti (Some dm) opts) q"
    by (simp add: enumerated_def emitted_by_def)
  then have "\<not> (transfer_count q > 0 \<and> direction_invalid dm (train_sequence q))"
    by (simp add: direction_checked_def search_of_def)
  with assms(3) have "\<not> direction_invalid dm (train_sequence p)"
    by (simp add: p)
  from direction_valid_pairs [OF this assms(4-6)] have "\<not> opposed a b" .
  with opposed_at [OF assms(7,8)]
  have first: "\<not> (a ! j \<noteq> 0 \<and> b ! j \<noteq> 0 \<and> a ! j = - b ! j)"
    by blast
  then have "\<bar>a ! j\<bar> \<le> 1 \<and> \<bar>b ! j\<bar> \<le> 1 \<longrightarrow> \<not> (a ! j < 0 \<and> 0 < b ! j \<or> 0 < a ! j \<and> b ! j < 0)"
    by linarith
  with first show ?thesis by blast
qed

lemma same_way_search:
  "findAllPaths change_nodes change_adjacency ''X'' ''Z'' no_train_info (Some same_way) no_options =
     Inr [change_path]"
  by code_simp

lemma opposite_ways_search:
  "findAllPaths change_nodes change_adjacency ''X'' ''Z'' no_train_info (Some opposite_ways) no_options =
     Inr []"
  by code_simp

theorem findAllPaths_direction_compatible_witness:
  "findAllPaths change_nodes change_adjacency ''X'' ''Z'' no_train_info (Some same_way) no_options =
     Inr [change_path] \<and>
   1 \<le> transfer_count change_path \<and>
   same_way (train_sequence change_path ! 0) = Some [1, 0] \<and>
   same_way (train_sequence change_path ! Suc 0) = Some [1, 0] \<and>
   \<not> ([1, 0 :: int] ! 0 \<noteq> 0 \<and> [1, 0 :: int] ! 0 \<noteq> 0 \<and> [1, 0 :: int] ! 0 = - [1, 0 :: int] ! 0) \<and>
   findAllPaths change_nodes change_adjacency ''X'' ''Z'' no_train_info (Some opposite_ways) no_options =
     Inr []"
proof -
  have m: "change_path \<in> set [change_path]" by simp
  have c: "1 \<le> transfer_count change_path"
    and l: "Suc 0 < length (train_sequence change_path)"
    and a: "same_way (train_sequence change_path ! 0) = Some [1, 0]"
    and b: "same_way (train_sequence change_path ! Suc 0) = Some [1, 0]"
    by (simp_all add: change_path_def one_change_def same_way_def)
  have j: "0 < length [1, 0 :: int]" by simp
  from findAllPaths_direction_compatible [OF same_way_search m c l a b j j]
    same_way_search opposite_ways_search c a b
  show ?thesis by simp
qed

section \<open>Agreement of the backend and the TypeScript port\<close>

lemma ts_toTime_nonneg:
  assumes "0 \<le> t"
  shows "ts_toTime t = toTime t"
proof -
  have r1: "js_rem t 1440 = t mod 1440"
    using assms by (rule js_rem_nonneg) simp
  have "0 \<le> t mod 1440 + 1440" by simp
  then have r2: "js_rem (t mod 1440 + 1440) 1440 = (t mod 1440 + 1440) mod 1440"
    by (rule js_rem_nonneg) simp
  have r3: "(t mod 1440 + 1440) mod 1440 = t mod 1440"
    by simp
  have "0 \<le> t mod 1440" by simp
  then have r4: "js_rem (t mod 1440) 60 = (t mod 1440) mod 60"
    by (rule js_rem_nonneg) simp
  show ?thesis
    unfolding ts_toTime_def toTime_def Let_def r1 r2 r3 r4 ..
qed

lemma ts_summarize_loop_eq:
  "0 \<le> t \<Longrightarrow> \<forall>h \<in> set eh. 0 < h_duration h \<Longrightarrow>
   ts_summarize_loop ns eh t acc = summarize_loop ns eh t acc"
proof (induction eh arbitrary: t acc)
  case Nil
  then show ?case by simp
next
  case (Cons h eh)
  then have t': "0 \<le> t + h_duration h" and r: "\<forall>h \<in> set eh. 0 < h_duration h"
    by auto
  show ?case
    using Cons.IH [OF t' r] Cons.prems(1) t'
    by (simp add: ts_toTime_nonneg)
qed

lemma ts_summarizePath_eq:
  assumes "0 \<le> st" and "0 \<le> et" and "\<forall>h \<in> set eh. 0 < h_duration h"
  shows "ts_summarizePath ns eh ts st et ti = summarizePath ns eh ts st et ti"
proof (cases "summarize_loop ns eh st []")
  case (Inl e)
  then show ?thesis
    using ts_summarize_loop_eq [OF assms(1,3), of ns "[]"]
    by (simp add: ts_summarizePath_def summarizePath_def)
next
  case (Inr r)
  obtain walked ds where r: "r = (walked, ds)" by (cases r)
  have tl: "(if walked \<noteq> et then et else walked) = et" by simp
  show ?thesis
    using ts_summarize_loop_eq [OF assms(1,3), of ns "[]"] Inr
    unfolding ts_summarizePath_def summarizePath_def r Let_def tl
    by (simp add: ts_toTime_nonneg assms(1,2) formatDuration_def)
qed

lemma ts_nextTrainSequence_eq:
  "ts \<noteq> [] \<Longrightarrow> last ts \<noteq> [] \<Longrightarrow> ts_nextTrainSequence ts tr = nextTrainSequence ts tr"
  by (auto simp: ts_nextTrainSequence_def nextTrainSequence_def truthy_def Let_def)

lemma ts_skip_same_station_eq:
  "lts = None \<or> (\<exists>s. lts = Some s \<and> s \<noteq> []) \<Longrightarrow>
   ts_skip_same_station C cur lts e = skip_same_station C cur lts e"
  by (auto simp: ts_skip_same_station_def skip_same_station_def truthy_def)

lemma nextTrainSequence_last:
  "tr \<noteq> [] \<Longrightarrow> last ts \<noteq> [] \<Longrightarrow>
   nextTrainSequence ts tr \<noteq> [] \<and> last (nextTrainSequence ts tr) \<noteq> []"
  by (auto simp: nextTrainSequence_def)

lemma steady_step:
  assumes s: "steady C st t eh ts lts"
    and v: "e_to edge < length (nodes C) \<and> cur < length (nodes C)"
    and d: "\<not> e_duration edge \<le> 0"
  shows "steady C st (t + e_duration edge) (eh @ [history_entry cur edge])
           (nextTrainSequence ts (node_train (nodes C ! e_to edge)))
           (if isTransferNow C cur edge then Some (node_station (nodes C ! cur)) else lts)"
proof -
  from s have nn: "named_nodes (nodes C)" by (simp add: steady_def)
  from v have "nodes C ! e_to edge \<in> set (nodes C)" and "nodes C ! cur \<in> set (nodes C)"
    by simp_all
  with nn have tr: "node_train (nodes C ! e_to edge) \<noteq> []"
    and sn: "node_station (nodes C ! cur) \<noteq> []"
    unfolding named_nodes_def list_all_iff by blast+
  from s have "last ts \<noteq> []" by (simp add: steady_def)
  from nextTrainSequence_last [OF tr this] s d sn show ?thesis
    by (auto simp: steady_def history_entry_def)
qed

lemma ts_dfs_eq:
  "steady C st t eh ts lts \<Longrightarrow>
   ts_dfs C cur t used path eh ts st lts S = dfs C cur t used path eh ts st lts S"
  and ts_explore_eq:
  "steady C st t eh ts lts \<Longrightarrow>
   ts_explore C edges cur t used path eh ts st lts S = explore C edges cur t used path eh ts st lts S"
proof (induction C cur t used path eh ts st lts S and C edges cur t used path eh ts st lts S
       rule: dfs_explore.induct)
  case (1 C cur t used path eh ts st lts S)
  note st = "1.prems"
  show ?case
  proof (cases "cur < length (nodes C)")
    case False
    then show ?thesis by (simp add: dfs.simps ts_dfs.simps)
  next
    case v: True
    show ?thesis
    proof (cases "node_station (nodes C ! cur) = endStation C \<and> length eh > 0")
      case True
      have "ts_summarizePath (nodes C) eh ts st t (trainInfo C) =
              summarizePath (nodes C) eh ts st t (trainInfo C)"
        using st by (intro ts_summarizePath_eq) (simp_all add: steady_def)
      with True v show ?thesis
        by (subst dfs.simps, subst ts_dfs.simps) simp
    next
      case False
      have v': "\<not> \<not> cur < length (nodes C)" using v by simp
      have "ts_explore C (neighbors C cur) cur t used path eh ts st lts S =
              explore C (neighbors C cur) cur t used path eh ts st lts S"
        by (rule "1.IH" [OF v' False st])
      then show ?thesis
        unfolding dfs.simps [of C cur t used path eh ts st lts S]
          ts_dfs.simps [of C cur t used path eh ts st lts S]
          if_not_P [OF v'] if_not_P [OF False] .
    qed
  qed
next
  case (2 C cur t used path eh ts st lts S)
  show ?case by simp
next
  case (3 C edge edges cur t used path eh ts st lts S)
  note st = "3.prems"
  have sk: "ts_skip_same_station C cur lts edge = skip_same_station C cur lts edge"
    using st by (intro ts_skip_same_station_eq) (simp add: steady_def)
  have nt: "ts_nextTrainSequence ts (node_train (nodes C ! e_to edge)) =
              nextTrainSequence ts (node_train (nodes C ! e_to edge))"
    using st by (intro ts_nextTrainSequence_eq) (simp_all add: steady_def)
  show ?case
  proof (cases "e_to edge \<in> set path")
    case True
    from "3.IH"(1) [OF True st] True show ?thesis
      by (subst explore.simps(2), subst ts_explore.simps(2)) simp
  next
    case c1: False
    show ?thesis
    proof (cases "e_to edge < length (nodes C) \<and> cur < length (nodes C)")
      case False
      with c1 show ?thesis
        by (subst explore.simps(2), subst ts_explore.simps(2)) simp
    next
      case c2: True
      then have c2': "\<not> \<not> (e_to edge < length (nodes C) \<and> cur < length (nodes C))" by simp
      show ?thesis
      proof (cases "e_duration edge \<le> 0")
        case True
        from "3.IH"(2) [OF c1 c2' True st] c1 c2 True show ?thesis
          by (subst explore.simps(2), subst ts_explore.simps(2)) simp
      next
        case c3: False
        show ?thesis
        proof (cases "skip_same_station C cur lts edge")
          case True
          from "3.IH"(3) [OF c1 c2' c3 True st] c1 c2 c3 True sk show ?thesis
            by (subst explore.simps(2), subst ts_explore.simps(2)) simp
        next
          case c4: False
          show ?thesis
          proof (cases "nextTransfers C cur used edge > maxTransfers C")
            case True
            from "3.IH"(4) [OF c1 c2' c3 c4 True st] c1 c2 c3 c4 True sk show ?thesis
              by (subst explore.simps(2), subst ts_explore.simps(2)) simp
          next
            case c5: False
            let ?lts = "if isTransferNow C cur edge then Some (node_station (nodes C ! cur)) else lts"
            let ?d = "dfs C (e_to edge) (t + e_duration edge) (nextTransfers C cur used edge)
                    (path @ [e_to edge]) (eh @ [history_entry cur edge])
                    (nextTrainSequence ts (node_train (nodes C ! e_to edge))) st ?lts S"
            have st': "steady C st (t + e_duration edge) (eh @ [history_entry cur edge])
                (nextTrainSequence ts (node_train (nodes C ! e_to edge))) ?lts"
              using st c2 c3 by (rule steady_step)
            have d: "ts_dfs C (e_to edge) (t + e_duration edge) (nextTransfers C cur used edge)
                    (path @ [e_to edge]) (eh @ [history_entry cur edge])
                    (nextTrainSequence ts (node_train (nodes C ! e_to edge))) st ?lts S = ?d"
              by (rule "3.IH"(5) [OF c1 c2' c3 c4 c5 st'])
            show ?thesis
            proof (cases ?d)
              case (Inl err)
              with d c1 c2 c3 c4 c5 sk nt show ?thesis
                by (subst explore.simps(2), subst ts_explore.simps(2)) simp
            next
              case (Inr S1)
              from "3.IH"(6) [OF c1 c2' c3 c4 c5 Inr st]
              have "ts_explore C edges cur t used path eh ts st lts S1 =
                      explore C edges cur t used path eh ts st lts S1" .
              with Inr d c1 c2 c3 c4 c5 sk nt show ?thesis
                by (subst explore.simps(2), subst ts_explore.simps(2)) simp
            qed
          qed
        qed
      qed
    qed
  qed
qed

lemma digits_value_Some:
  "list_all (\<lambda>c. digit_val c \<noteq> None) s \<Longrightarrow> \<exists>n. digits_value acc s = Some n"
  by (induction s arbitrary: acc) auto

lemma is_digits_parse:
  assumes "is_digits s"
  shows "ts_parseInt s = Number s" and "\<exists>v. Number s = Some v"
proof -
  from assms have ne: "s \<noteq> []" and d: "list_all (\<lambda>c. digit_val c \<noteq> None) s"
    by (simp_all add: is_digits_def)
  show "ts_parseInt s = Number s"
    using ne by (simp add: ts_parseInt_def Number_def)
  from digits_value_Some [OF d, of 0] show "\<exists>v. Number s = Some v"
    by (auto simp: Number_def)
qed

lemma clock_string_parse:
  assumes "clock_string t"
  shows "ts_parseTime t = parseTime t" and "\<exists>v. parseTime t = Some v"
proof -
  from assms obtain h m rest where sp: "split_on CHR '':'' t = h # m # rest"
    and h: "is_digits h" and m: "is_digits m"
    unfolding clock_string_def by (auto split: list.splits)
  from is_digits_parse [OF h] obtain hv where hv: "Number h = Some hv" "ts_parseInt h = Some hv"
    by auto
  from is_digits_parse [OF m] obtain mv where mv: "Number m = Some mv" "ts_parseInt m = Some mv"
    by auto
  show "ts_parseTime t = parseTime t"
    unfolding ts_parseTime_def parseTime_def sp by (simp add: hv mv)
  show "\<exists>v. parseTime t = Some v"
    unfolding parseTime_def sp by (simp add: hv mv)
qed

lemma ts_start_loop_eq:
  assumes nn: "named_nodes (nodes C)"
  shows "\<forall>s \<in> set starts. s < length (nodes C) \<longrightarrow> clock_string (node_time (nodes C ! s)) \<Longrightarrow>
         ts_start_loop C starts S = start_loop C starts S"
proof (induction starts arbitrary: S)
  case Nil
  then show ?case by simp
next
  case (Cons s starts)
  show ?case
  proof (cases "s < length (nodes C)")
    case False
    then show ?thesis by simp
  next
    case True
    with Cons.prems have cs: "clock_string (node_time (nodes C ! s))" by simp
    from clock_string_parse [OF cs] obtain st where
      p: "parseTime (node_time (nodes C ! s)) = Some st"
      and tp: "ts_parseTime (node_time (nodes C ! s)) = Some st" by auto
    have st: "0 \<le> st" using p by (rule parseTime_nonneg)
    from True have "nodes C ! s \<in> set (nodes C)" by simp
    with nn have "node_train (nodes C ! s) \<noteq> []"
      unfolding named_nodes_def list_all_iff by blast
    with nn st have "steady C st st [] [node_train (nodes C ! s)] None"
      by (simp add: steady_def)
    then have d: "ts_dfs C s st 0 [s] [] [node_train (nodes C ! s)] st None S =
                  dfs C s st 0 [s] [] [node_train (nodes C ! s)] st None S"
      by (rule ts_dfs_eq)
    have r: "\<And>S'. ts_start_loop C starts S' = start_loop C starts S'"
      using Cons.prems by (intro Cons.IH) simp
    show ?thesis
      using True p tp d r by (simp split: sum.splits)
  qed
qed

lemma ts_findAllPaths_eq:
  assumes "named_nodes ns" and "start_times_readable ns startStation"
  shows "ts_findAllPaths ns adj startStation endSt ti dm opts =
         run_search ns adj startStation endSt ti dm opts"
proof -
  let ?C = "search_of ns adj endSt ti dm opts"
  have nn: "named_nodes (nodes ?C)" using assms(1) by simp
  have "\<forall>s \<in> set (startNodes ns startStation).
          s < length (nodes ?C) \<longrightarrow> clock_string (node_time (nodes ?C ! s))"
  proof (intro ballI impI)
    fix s assume "s \<in> set (startNodes ns startStation)" and "s < length (nodes ?C)"
    then have "ns ! s \<in> set ns" and "node_station (ns ! s) = startStation"
      by (simp_all add: startNodes_def)
    then have m: "ns ! s \<in> set (filter (\<lambda>n. node_station n = startStation) ns)"
      by simp
    from assms(2) [unfolded start_times_readable_def list_all_iff, rule_format, OF m]
    show "clock_string (node_time (nodes ?C ! s))" by simp
  qed
  from ts_start_loop_eq [OF nn this] show ?thesis
    by (simp add: ts_findAllPaths_def run_search_def Let_def)
qed

lemma ts_add_options_eq:
  "idx + length ds \<le> length ol \<Longrightarrow> ts_add_options ol idx ds = add_options ol idx ds"
proof (induction ds arbitrary: ol idx)
  case Nil
  then show ?case by simp
next
  case (Cons d ds)
  then have i: "idx < length ol" by simp
  let ?ol1 = "if d \<in> set (ol ! idx) then ol else ol[idx := ol ! idx @ [d]]"
  have "Suc idx + length ds \<le> length ?ol1" using Cons.prems by simp
  from Cons.IH [OF this] i show ?case by (simp add: Let_def)
qed

lemma ts_merge_key_of_counted: "counted p \<Longrightarrow> ts_merge_key_of p = merge_key_of p"
  by (simp add: ts_merge_key_of_def merge_key_of_def transferCount_of_counted) (simp add: counted_def)

lemma ts_merge_step_eq:
  assumes g: "groups_ok grouped" and c: "counted entry"
  shows "ts_merge_step grouped entry = merge_step grouped entry"
proof -
  let ?key = "merge_key_of entry"
  let ?ds = "transfer_details entry"
  have tc: "transferCount_of entry = int (length ?ds)"
    using c by (rule transferCount_of_counted)
  have tc': "transfer_count entry = int (length ?ds)"
    using c by (simp add: counted_def)
  have k: "ts_merge_key_of entry = ?key" using c by (rule ts_merge_key_of_counted)
  show ?thesis
  proof (cases "map_of grouped ?key")
    case None
    then show ?thesis
      by (simp add: ts_merge_step_def merge_step_def k tc tc' Let_def)
  next
    case (Some grp)
    then have mem: "(?key, grp) \<in> set grouped" by (rule map_of_SomeD)
    with g have ok: "group_ok (?key, grp)" by (auto simp: groups_ok_def)
    then have keq: "merge_key_of (base grp) = ?key" and cb: "counted (base grp)"
      by (simp_all add: group_ok_def)
    have "transferCount_of (base grp) = transferCount_of entry"
      using keq by (simp add: merge_key_of_def)
    then have leq: "length (transfer_details (base grp)) = length ?ds"
      using tc transferCount_of_counted [OF cb] by simp
    show ?thesis
    proof (cases "?ds = []")
      case True
      then show ?thesis
        using Some by (simp add: ts_merge_step_def merge_step_def k tc tc' Let_def)
    next
      case False
      with leq have bne: "transfer_details (base grp) \<noteq> []" by auto
      with ok obtain ol where ol: "option_lists grp = Some ol"
        and hd: "map hd ol = transfer_details (base grp)"
        by (auto simp: group_ok_def split: option.splits)
      have "length ol = length ?ds"
        using hd leq by (metis length_map)
      then have "0 + length ?ds \<le> length ol" by simp
      from ts_add_options_eq [OF this] show ?thesis
        using Some False ol by (simp add: ts_merge_step_def merge_step_def k tc tc' Let_def)
    qed
  qed
qed

lemma ts_merge_loop_eq:
  "groups_ok grouped \<Longrightarrow> \<forall>p \<in> set ps. counted p \<Longrightarrow>
   ts_merge_loop grouped ps = merge_loop grouped ps"
proof (induction ps arbitrary: grouped)
  case Nil
  then show ?case by simp
next
  case (Cons p ps)
  from Cons.prems have c: "counted p" and r: "\<forall>p \<in> set ps. counted p" by simp_all
  from merge_step_ok [OF Cons.prems(1) c] obtain g1 where
    s: "merge_step grouped p = Inr g1" and ok: "groups_ok g1" by blast
  from Cons.IH [OF ok r] ts_merge_step_eq [OF Cons.prems(1) c] s show ?case by simp
qed

lemma ts_finish_group_eq:
  assumes "group_ok (k, g)"
  shows "ts_finish_group g = Inr (finish_group g)"
proof (cases "option_lists g")
  case None
  then show ?thesis by (simp add: ts_finish_group_def finish_group_def)
next
  case (Some ol)
  with assms have ne: "[] \<notin> set ol" by (simp add: group_ok_def)
  then have f: "filter (\<lambda>optionList. length optionList > 0) ol = ol"
    by (auto simp: filter_id_conv)
  have "\<forall>x \<in> set (enumerate 0 ol). snd x \<noteq> []"
    using ne by (auto simp: enumerate_eq_zip dest!: set_zip_rightD)
  then have f2: "filter (\<lambda>option. length (options option) > 0)
            (map (\<lambda>(idx, optionList). \<lparr>step = idx + 1, options = optionList\<rparr>) (enumerate 0 ol)) =
          map (\<lambda>(idx, optionList). \<lparr>step = idx + 1, options = optionList\<rparr>) (enumerate 0 ol)"
    by (auto simp: filter_id_conv)
  show ?thesis
    using Some ne unfolding ts_finish_group_def finish_group_def
    by (simp only: option.case f f2 if_False)
qed

lemma ts_finish_loop_eq:
  "\<forall>kg \<in> set grouped. group_ok kg \<Longrightarrow>
   ts_finish_loop grouped = Inr (map (\<lambda>(key, g). finish_group g) grouped)"
proof (induction grouped)
  case Nil
  then show ?case by simp
next
  case (Cons kg grouped)
  obtain k g where kg: "kg = (k, g)" by (cases kg)
  from Cons.prems have "group_ok (k, g)" by (simp add: kg)
  from ts_finish_group_eq [OF this] Cons show ?case by (simp add: kg)
qed

lemma ts_merge_eq:
  assumes "\<forall>p \<in> set ps. counted p"
  shows "ts_mergePathsByTrainSequence ps = mergePathsByTrainSequence ps"
proof -
  have e: "groups_ok []" by (simp add: groups_ok_def)
  from merge_loop_ok [OF e assms] obtain g where
    l: "merge_loop [] ps = Inr g" and ok: "groups_ok g" by blast
  from ok have "\<forall>kg \<in> set g. group_ok kg" by (simp add: groups_ok_def)
  from ts_finish_loop_eq [OF this] ts_merge_loop_eq [OF e assms] l show ?thesis
    by (simp add: ts_mergePathsByTrainSequence_def mergePathsByTrainSequence_def)
qed

lemma findAllPaths_counted:
  assumes "findAllPaths ns adj startStation endSt ti dm opts = Inr ps"
  shows "\<forall>p \<in> set ps. counted p"
proof
  fix p assume "p \<in> set ps"
  from findAllPaths_enumerated [OF assms this] obtain q k s st eh where
    p: "p = q\<lparr>path_id := Some k\<rparr>"
    and e: "enumerated ns adj startStation endSt ti dm opts s st eh q" by blast
  from enumerated_counts(1) [OF e] show "counted p" by (simp add: p counted_def)
qed

lemma pipelines_agree_aux:
  assumes "named_nodes ns" and "start_times_readable ns startStation"
  shows "frontend_pipeline ns adj startStation endSt ti dm opts =
         backend_pipeline ns adj startStation endSt ti dm opts"
proof (cases "findAllPaths ns adj startStation endSt ti dm opts")
  case (Inl e)
  then show ?thesis
    using ts_findAllPaths_eq [OF assms]
    by (auto simp: frontend_pipeline_def backend_pipeline_def findAllPaths_def split: sum.splits)
next
  case (Inr ps)
  from findAllPaths_counted [OF Inr] have "ts_mergePathsByTrainSequence ps = mergePathsByTrainSequence ps"
    by (rule ts_merge_eq)
  with Inr show ?thesis
    using ts_findAllPaths_eq [OF assms]
    by (auto simp: frontend_pipeline_def backend_pipeline_def findAllPaths_def split: sum.splits)
qed

lemma summarize_loop_error: "summarize_loop ns eh t acc = Inl e \<Longrightarrow> e = TypeError"
  by (induction eh arbitrary: t acc) (auto split: if_splits)

lemma summarizePath_error: "summarizePath ns eh ts st et ti = Inl e \<Longrightarrow> e = TypeError"
  by (auto simp: summarizePath_def Let_def split: sum.splits dest: summarize_loop_error)

lemma dfs_error:
  "dfs C cur t used path eh ts st lts S = Inl e \<Longrightarrow> e = TypeError"
  and explore_error:
  "explore C edges cur t used path eh ts st lts S = Inl e \<Longrightarrow> e = TypeError"
proof (induction C cur t used path eh ts st lts S and C edges cur t used path eh ts st lts S
       rule: dfs_explore.induct)
  case (1 C cur t used path eh ts st lts S)
  show ?case
  proof (cases "cur < length (nodes C)")
    case False
    with "1.prems" show ?thesis by (subst (asm) dfs.simps) simp
  next
    case v: True
    then have v': "\<not> \<not> cur < length (nodes C)" by simp
    show ?thesis
    proof (cases "node_station (nodes C ! cur) = endStation C \<and> length eh > 0")
      case True
      with "1.prems" v show ?thesis
        by (subst (asm) dfs.simps) (auto split: sum.splits dest: summarizePath_error)
    next
      case False
      from "1.prems" have
        "explore C (neighbors C cur) cur t used path eh ts st lts S = Inl e"
        unfolding dfs.simps [of C cur t used path eh ts st lts S]
          if_not_P [OF v'] if_not_P [OF False] .
      from "1.IH" [OF v' False this] show ?thesis .
    qed
  qed
next
  case (2 C cur t used path eh ts st lts S)
  then show ?case by simp
next
  case (3 C edge edges cur t used path eh ts st lts S)
  note run = "3.prems" [unfolded explore.simps(2) [of C edge edges]]
  show ?case
  proof (cases "e_to edge \<in> set path")
    case True
    with run have "explore C edges cur t used path eh ts st lts S = Inl e" by simp
    from "3.IH"(1) [OF True this] show ?thesis .
  next
    case c1: False
    show ?thesis
    proof (cases "e_to edge < length (nodes C) \<and> cur < length (nodes C)")
      case False
      with run c1 show ?thesis by simp
    next
      case c2: True
      then have c2': "\<not> \<not> (e_to edge < length (nodes C) \<and> cur < length (nodes C))" by simp
      show ?thesis
      proof (cases "e_duration edge \<le> 0")
        case True
        with run c1 c2 have "explore C edges cur t used path eh ts st lts S = Inl e" by simp
        from "3.IH"(2) [OF c1 c2' True this] show ?thesis .
      next
        case c3: False
        show ?thesis
        proof (cases "skip_same_station C cur lts edge")
          case True
          with run c1 c2 c3 have
            "explore C edges cur t used path eh ts st lts
               (S\<lparr>skipped_same_station_transfers := skipped_same_station_transfers S + 1\<rparr>) = Inl e"
            by simp
          from "3.IH"(3) [OF c1 c2' c3 True this] show ?thesis .
        next
          case c4: False
          show ?thesis
          proof (cases "nextTransfers C cur used edge > maxTransfers C")
            case True
            with run c1 c2 c3 c4 have "explore C edges cur t used path eh ts st lts S = Inl e"
              by simp
            from "3.IH"(4) [OF c1 c2' c3 c4 True this] show ?thesis .
          next
            case c5: False
            let ?lts = "if isTransferNow C cur edge then Some (node_station (nodes C ! cur)) else lts"
            let ?d = "dfs C (e_to edge) (t + e_duration edge) (nextTransfers C cur used edge)
                    (path @ [e_to edge]) (eh @ [history_entry cur edge])
                    (nextTrainSequence ts (node_train (nodes C ! e_to edge))) st ?lts S"
            show ?thesis
            proof (cases ?d)
              case (Inl err)
              with run c1 c2 c3 c4 c5 have "err = e" by simp
              with "3.IH"(5) [OF c1 c2' c3 c4 c5] Inl show ?thesis by simp
            next
              case (Inr S1)
              with run c1 c2 c3 c4 c5 have
                "explore C edges cur t used path eh ts st lts S1 = Inl e" by simp
              from "3.IH"(6) [OF c1 c2' c3 c4 c5 Inr this] show ?thesis .
            qed
          qed
        qed
      qed
    qed
  qed
qed

lemma start_loop_error:
  "\<forall>s \<in> set starts. s < length (nodes C) \<longrightarrow> clock_string (node_time (nodes C ! s)) \<Longrightarrow>
   start_loop C starts S = Inl e \<Longrightarrow> e = TypeError"
proof (induction starts arbitrary: S)
  case Nil
  then show ?case by simp
next
  case (Cons s starts)
  show ?case
  proof (cases "s < length (nodes C)")
    case False
    with Cons.prems(2) show ?thesis by simp
  next
    case True
    with Cons.prems(1) have "clock_string (node_time (nodes C ! s))" by simp
    from clock_string_parse(2) [OF this] obtain st where
      p: "parseTime (node_time (nodes C ! s)) = Some st" by blast
    show ?thesis
    proof (cases "dfs C s st 0 [s] [] [node_train (nodes C ! s)] st None S")
      case (Inl err)
      with Cons.prems(2) True p have "err = e" by simp
      with dfs_error [OF Inl] show ?thesis by simp
    next
      case (Inr S1)
      with Cons.prems(2) True p have "start_loop C starts S1 = Inl e" by simp
      with Cons.IH [of S1] Cons.prems(1) show ?thesis by simp
    qed
  qed
qed

lemma readable_start_nodes:
  assumes "start_times_readable ns startStation"
  shows "\<forall>s \<in> set (startNodes ns startStation).
          s < length (nodes (search_of ns adj endSt ti dm opts)) \<longrightarrow>
          clock_string (node_time (nodes (search_of ns adj endSt ti dm opts) ! s))"
proof (intro ballI impI)
  fix s assume "s \<in> set (startNodes ns startStation)"
    and "s < length (nodes (search_of ns adj endSt ti dm opts))"
  then have m: "ns ! s \<in> set (filter (\<lambda>n. node_station n = startStation) ns)"
    by (simp add: startNodes_def)
  from assms [unfolded start_times_readable_def list_all_iff, rule_format, OF m]
  show "clock_string (node_time (nodes (search_of ns adj endSt ti dm opts) ! s))" by simp
qed

lemma run_search_error:
  assumes r: "start_times_readable ns startStation"
    and e: "run_search ns adj startStation endSt ti dm opts = Inl err"
  shows "err = TypeError"
proof -
  from e obtain fresh where
    "start_loop (search_of ns adj endSt ti dm opts) (startNodes ns startStation) fresh = Inl err"
    by (auto simp: run_search_def Let_def split: if_splits sum.splits)
  from start_loop_error [OF readable_start_nodes [OF r] this] show ?thesis .
qed

lemma backend_pipeline_error:
  assumes r: "start_times_readable ns startStation"
    and e: "backend_pipeline ns adj startStation endSt ti dm opts = Inl err"
  shows "err = TypeError"
proof (cases "findAllPaths ns adj startStation endSt ti dm opts")
  case (Inl e1)
  let ?C = "search_of ns adj endSt ti dm opts"
  from Inl e have e1: "e1 = err" by (simp add: backend_pipeline_def)
  from Inl obtain fresh where
    "start_loop ?C (startNodes ns startStation) fresh = Inl e1"
    by (auto simp: findAllPaths_def run_search_def Let_def split: if_splits sum.splits)
  from start_loop_error [OF readable_start_nodes [OF r] this] e1 show ?thesis by simp
next
  case (Inr ps)
  from merge_output_shape [OF findAllPaths_counted [OF Inr]] e Inr show ?thesis
    by (auto simp: backend_pipeline_def)
qed

text \<open>
  C10 (amended): for every graph whose nodes have non-empty station names and train ids
  and whose nodes at the start station carry times of the form digits:digits, and for
  every adjacency, station pair, train info, direction map and option setting, the
  backend's \<open>findAllPaths\<close> followed by its \<open>mergePathsByTrainSequence\<close> and the port's
  \<open>findAllPaths\<close> followed by its \<open>mergePathsByTrainSequence\<close> give the same result: the
  same merged records in the same order, or the same thrown error. The run stays inside
  the integer fragment.
\<close>

theorem pipelines_agree:
  assumes "named_nodes ns" and "start_times_readable ns startStation"
  shows "frontend_pipeline ns adj startStation endSt ti dm opts =
           backend_pipeline ns adj startStation endSt ti dm opts \<and>
         backend_pipeline ns adj startStation endSt ti dm opts \<noteq> Inl OutsideModel"
proof -
  have "backend_pipeline ns adj startStation endSt ti dm opts \<noteq> Inl OutsideModel"
    using backend_pipeline_error [OF assms(2)] by fastforce
  with pipelines_agree_aux [OF assms] show ?thesis by simp
qed

lemma unnamed_backend:
  "backend_pipeline unnamed_train_nodes cross_adjacency ''A'' ''B'' no_train_info None no_options =
     Inr [unnamed_train_path [[]]]"
  by code_simp

lemma unnamed_frontend:
  "frontend_pipeline unnamed_train_nodes cross_adjacency ''A'' ''B'' no_train_info None no_options =
     Inr [unnamed_train_path [[], []]]"
  by code_simp

text \<open>
  C10 (as stated): on every graph the backend and the TypeScript port produce the same
  merged paths. On a graph whose train id is the empty string the backend keeps the train
  sequence \<open>[""]\<close> along a direct ride, since the next train equals the last one, while
  the port appends it again, since \<open>!lastTrain\<close> holds for the empty string.
\<close>

theorem pipelines_agree_counterexample:
  "backend_pipeline unnamed_train_nodes cross_adjacency ''A'' ''B'' no_train_info None no_options =
     Inr [unnamed_train_path [[]]] \<and>
   frontend_pipeline unnamed_train_nodes cross_adjacency ''A'' ''B'' no_train_info None no_options =
     Inr [unnamed_train_path [[], []]] \<and>
   unnamed_train_path [[]] \<noteq> unnamed_train_path [[], []]"
  using unnamed_backend unnamed_frontend
  by (simp add: unnamed_train_path_def cross_path_def)

lemma change_backend:
  "backend_pipeline change_nodes change_adjacency ''X'' ''Z'' no_train_info (Some same_way) no_options =
     Inr [representative_options change_path]"
  by code_simp

lemma change_named: "named_nodes change_nodes"
  by code_simp

lemma change_readable: "start_times_readable change_nodes ''X''"
  by code_simp

theorem pipelines_agree_witness:
  "named_nodes change_nodes \<and> start_times_readable change_nodes ''X'' \<and>
   frontend_pipeline change_nodes change_adjacency ''X'' ''Z'' no_train_info (Some same_way) no_options =
     Inr [representative_options change_path] \<and>
   backend_pipeline change_nodes change_adjacency ''X'' ''Z'' no_train_info (Some same_way) no_options =
     Inr [representative_options change_path]"
  using pipelines_agree [OF change_named change_readable, of change_adjacency "''Z''" no_train_info
      "Some same_way" no_options]
    change_backend change_named change_readable
  by simp

section \<open>Properties of the query facade\<close>

lemma digit_not_special:
  assumes "digit_val c \<noteq> None"
  shows "\<not> is_space c" and "c \<noteq> CHR ''-''" and "c \<noteq> CHR ''+''"
    and "c \<noteq> CHR ''x''" and "c \<noteq> CHR ''X''"
proof -
  from assms have r: "48 \<le> (of_char c :: nat) \<and> (of_char c :: nat) \<le> 57"
    by (simp add: digit_val_def Let_def split: if_splits)
  then show "\<not> is_space c" by (auto simp: is_space_def)
  from r show "c \<noteq> CHR ''-''" and "c \<noteq> CHR ''+''" and "c \<noteq> CHR ''x''" and "c \<noteq> CHR ''X''"
    by auto
qed

lemma digits_value_all_digits:
  "digits_value acc cs = Some v \<Longrightarrow> \<forall>c \<in> set cs. digit_val c \<noteq> None"
  by (induction cs arbitrary: acc) (auto split: option.splits)

lemma digits_value_radix_value:
  "\<forall>c \<in> set cs. digit_val c \<noteq> None \<Longrightarrow>
   digits_value acc cs = Some (radix_value 10 digit_val acc cs)"
  by (induction cs arbitrary: acc) (auto split: option.splits)

lemma digits_of_not_empty: "digits_of m \<noteq> []"
  by (subst digits_of.simps) simp

lemma parseInt_digits:
  assumes ne: "ds \<noteq> []" and dg: "\<forall>c \<in> set ds. digit_val c \<noteq> None"
  shows "parseInt ds = Some (int (radix_value 10 digit_val 0 ds))"
    and "parseInt (CHR ''-'' # ds) = Some (- int (radix_value 10 digit_val 0 ds))"
proof -
  from ne obtain c cs where ds: "ds = c # cs" by (cases ds) auto
  from dg ds have c: "digit_val c \<noteq> None" by simp
  note sp = digit_not_special [OF c]
  have nohex: "take 2 ds \<noteq> ''0x''" "take 2 ds \<noteq> ''0X''"
  proof -
    show "take 2 ds \<noteq> ''0x''"
    proof
      assume "take 2 ds = ''0x''"
      then have "CHR ''x'' \<in> set (take 2 ds)" by simp
      then have "CHR ''x'' \<in> set ds" by (rule in_set_takeD)
      with dg have "digit_val CHR ''x'' \<noteq> None" by blast
      from digit_not_special(4) [OF this] show False by simp
    qed
    show "take 2 ds \<noteq> ''0X''"
    proof
      assume "take 2 ds = ''0X''"
      then have "CHR ''X'' \<in> set (take 2 ds)" by simp
      then have "CHR ''X'' \<in> set ds" by (rule in_set_takeD)
      with dg have "digit_val CHR ''X'' \<noteq> None" by blast
      from digit_not_special(5) [OF this] show False by simp
    qed
  qed
  have all: "takeWhile (\<lambda>c. \<exists>y. digit_val c = Some y) ds = ds"
    using dg by (auto simp: takeWhile_eq_all_conv)
  have dw: "dropWhile is_space ds = ds"
    using sp(1) by (simp add: ds)
  have t1: "take 1 ds = [c]" by (simp add: ds)
  show "parseInt ds = Some (int (radix_value 10 digit_val 0 ds))"
    unfolding parseInt_def Let_def dw t1
    using sp(2,3) nohex ne by (simp add: all)
  have dw': "dropWhile is_space (CHR ''-'' # ds) = CHR ''-'' # ds"
    by (simp add: is_space_def)
  show "parseInt (CHR ''-'' # ds) = Some (- int (radix_value 10 digit_val 0 ds))"
    unfolding parseInt_def Let_def dw'
    using nohex ne by (simp add: all)
qed

lemma parseInt_toString: "parseInt (toString i) = Some i"
proof -
  have v: "radix_value 10 digit_val 0 (digits_of m) = m" for m
  proof -
    have "\<forall>c \<in> set (digits_of m). digit_val c \<noteq> None"
      using digits_value_digits_of by (rule digits_value_all_digits)
    from digits_value_radix_value [OF this, of 0] digits_value_digits_of [of m]
    show ?thesis by simp
  qed
  have d: "\<forall>c \<in> set (digits_of m). digit_val c \<noteq> None" for m
    using digits_value_digits_of by (rule digits_value_all_digits)
  show ?thesis
  proof (cases "i < 0")
    case True
    then show ?thesis
      using parseInt_digits(2) [OF digits_of_not_empty d, of "nat (- i)"]
      by (simp add: toString_def v)
  next
    case False
    then show ?thesis
      using parseInt_digits(1) [OF digits_of_not_empty d, of "nat i"]
      by (simp add: toString_def v)
  qed
qed

lemma length_digits_of: "0 < k \<Longrightarrow> m < 10 ^ k \<Longrightarrow> length (digits_of m) \<le> k"
proof (induction m arbitrary: k rule: digits_of.induct)
  case (1 n)
  show ?case
  proof (cases "n < 10")
    case True
    with "1.prems" show ?thesis by (subst digits_of.simps) simp
  next
    case False
    with "1.prems" have k: "1 < k"
      by (cases "k = 1") auto
    then obtain j where j: "k = Suc j" and j0: "0 < j" by (cases k) auto
    from "1.prems"(2) j have "n div 10 < 10 ^ j"
      by (simp add: less_mult_imp_div_less mult.commute)
    from "1.IH" [OF False j0 this] have "length (digits_of (n div 10)) \<le> j" .
    then show ?thesis
      using False j by (subst digits_of.simps) simp
  qed
qed

lemma strip_zeros_pad:
  "strip_zeros ds @ replicate (length ds - length (strip_zeros ds)) CHR ''0'' = ds"
proof -
  let ?P = "\<lambda>c. c = CHR ''0''"
  let ?r = "rev ds"
  have tw: "takeWhile ?P ?r = replicate (length (takeWhile ?P ?r)) CHR ''0''"
  proof -
    have "\<forall>c \<in> set (takeWhile ?P ?r). c = CHR ''0''"
      by (auto dest: set_takeWhileD)
    then show ?thesis by (simp add: replicate_length_same)
  qed
  have split: "?r = takeWhile ?P ?r @ dropWhile ?P ?r" by simp
  have len: "length ds - length (strip_zeros ds) = length (takeWhile ?P ?r)"
  proof -
    have "length (takeWhile ?P ?r) + length (dropWhile ?P ?r) =
          length (takeWhile ?P ?r @ dropWhile ?P ?r)"
      by (simp only: length_append)
    also have "\<dots> = length ?r"
      by (simp only: takeWhile_dropWhile_id)
    also have "\<dots> = length ds" by simp
    finally have "length ds = length (takeWhile ?P ?r) + length (dropWhile ?P ?r)"
      by (rule sym)
    then show ?thesis by (simp add: strip_zeros_def)
  qed
  have "ds = rev ?r" by simp
  also have "\<dots> = rev (dropWhile ?P ?r) @ rev (takeWhile ?P ?r)"
    by (subst split) (simp only: rev_append)
  also have "rev (takeWhile ?P ?r) = replicate (length (takeWhile ?P ?r)) CHR ''0''"
    by (subst tw) simp
  finally have eq: "ds = rev (dropWhile ?P ?r) @ replicate (length (takeWhile ?P ?r)) CHR ''0''" .
  have "strip_zeros ds @ replicate (length (takeWhile ?P ?r)) CHR ''0'' = ds"
    unfolding strip_zeros_def by (rule eq [symmetric])
  then show ?thesis unfolding len .
qed

lemma length_strip_zeros: "length (strip_zeros ds) \<le> length ds"
  unfolding strip_zeros_def using length_dropWhile_le [of _ "rev ds"] by simp

lemma Number_toString_int:
  assumes "\<bar>i\<bar> < 10 ^ 21"
  shows "Number_toString (number_of_int i) = toString i"
proof (cases "i = 0")
  case True
  then show ?thesis
    by (simp add: Number_toString_def number_of_int_def toString_def digits_of.simps digit_char_0)
next
  case False
  define m where "m = nat \<bar>i\<bar>"
  have m0: "m \<noteq> 0" using False by (simp add: m_def)
  have "m < 10 ^ 21" using assms by (simp add: m_def nat_less_iff)
  then have n21: "length (digits_of m) \<le> 21"
    by (intro length_digits_of) simp_all
  let ?ds = "strip_zeros (digits_of m)"
  have kn: "length ?ds \<le> length (digits_of m)" by (rule length_strip_zeros)
  have pad: "?ds @ replicate (nat (int (length (digits_of m)) - int (length ?ds))) CHR ''0'' =
             digits_of m"
    using strip_zeros_pad [of "digits_of m"] kn by (simp add: nat_diff_distrib')
  have "Number_toString (number_of_int i) = (if i < 0 then ''-'' else []) @ digits_of m"
    using m0 kn n21 pad
    by (simp add: Number_toString_def number_of_int_def m_def [symmetric] Let_def)
  also have "\<dots> = toString i"
    by (auto simp: toString_def m_def)
  finally show ?thesis .
qed

lemma parseInt_number_of_int:
  "\<bar>i\<bar> < 10 ^ 21 \<Longrightarrow> parseInt (Number_toString (number_of_int i)) = Some i"
  by (simp add: Number_toString_int parseInt_toString)

lemma find_handler_throws: "find_handler data body = InternalServerError"
  by (simp add: find_handler_def require_def)

lemma load_config_Listening:
  assumes "load_config env = Listening cfg"
  shows "cfg = config env" and "validation_maxTransfers cfg = 5"
    and "validation_maxTimeWindowMinutes cfg = 480"
proof -
  from assms show "cfg = config env"
    by (auto simp: load_config_def split: option.splits if_splits)
  then show "validation_maxTransfers cfg = 5" and "validation_maxTimeWindowMinutes cfg = 480"
    by (simp_all add: config_def)
qed

lemma find_route_rejected:
  assumes "load_config env = Listening cfg"
    and "validatePathfindingRequest cfg body = Inl answer"
  shows "find_route env data body = Some answer"
  using assms by (simp add: find_route_def)

lemma find_route_accepted:
  assumes "load_config env = Listening cfg"
    and "validatePathfindingRequest cfg body = Inr sanitized"
  shows "find_route env data body = Some InternalServerError"
  using assms by (simp add: find_route_def find_handler_throws)

lemma validate_max_transfers_dropped:
  assumes "validatePathfindingRequest cfg (body\<lparr>max_transfers := None\<rparr>) = Inr accepted"
  shows "validatePathfindingRequest cfg body =
           (case out_of_range (max_transfers body) (validation_maxTransfers cfg) of
              Inl err \<Rightarrow> Inl ValidationFailed
            | Inr True \<Rightarrow> Inl (BadRequest ''max_transfers'')
            | Inr False \<Rightarrow> Inr (accepted\<lparr>max_transfers := max_transfers body\<rparr>))"
  using assms
  by (auto simp: validatePathfindingRequest_def out_of_range_def
      split: option.splits if_splits sum.splits bool.splits)

lemma validate_out_of_range:
  assumes "out_of_range (max_transfers body) (validation_maxTransfers cfg) = Inr True"
  shows "\<exists>field. validatePathfindingRequest cfg body = Inl (BadRequest field)"
  using assms
  by (auto simp: validatePathfindingRequest_def split: option.splits)

lemma ToString_examples:
  "ToString (JArray [JNumber (number_of_int 3)]) = Inr ''3''"
  "ToString (JArray [JNull, JArray [JBoolean True, JString ''a''], JObject []]) =
     Inr '',true,a,[object Object]''"
  "ToString (JNumber (Finite True 1 (- 6))) = Inr ''-1e-7''"
  by code_simp+

lemma parseInt_examples:
  "parseInt '' -0x1Fz'' = Some (- 31)" "parseInt ''0x'' = None"
  "parseInt ''+12.5'' = Some 12" "parseInt [] = None"
  by code_simp+

lemma load_config_examples:
  "load_config (unset_environment\<lparr>TIME_WINDOW_MINUTES := Some ''500''\<rparr>) = Exited"
  "load_config (unset_environment\<lparr>MAX_TRANSFERS := Some ''-1''\<rparr>) = Exited"
  "load_config (unset_environment\<lparr>PORT := Some ''0''\<rparr>) = Exited"
  "load_config (unset_environment\<lparr>PORT := Some ''http''\<rparr>) = Unmodelled"
  by code_simp+

lemma plain_request_valid:
  "validatePathfindingRequest (config unset_environment) (plain_request ''X'' ''Z'') =
     Inr (plain_request ''X'' ''Z'')"
  by code_simp

lemma unset_environment_listening:
  "load_config unset_environment = Listening (config unset_environment)"
  by code_simp

lemma window_120_environment_listening:
  "load_config window_120_environment = Listening (config window_120_environment)"
  by code_simp

text \<open>
  C2 (amended): for a request whose other fields pass the validation, the validation
  accepts \<open>max_transfers\<close> exactly when the field is absent or \<open>parseInt\<close> of the string
  form of its value is an integer \<open>n\<close> with \<open>0 \<le> n \<le> 5\<close>
  (\<open>config.validation.maxTransfers\<close>); for a number that is an integer of absolute value
  at most \<open>2 ^ 53\<close> this is \<open>0 \<le> max_transfers \<le> 5\<close>. Every other value is answered by the
  validation itself, so before the handler and the enumerator run: 400 Bad Request on the
  field \<open>max_transfers\<close>, or 500 when the value has no string form. Whatever the other
  fields, a value whose string form \<open>parseInt\<close> reads as \<open>NaN\<close> or as an integer outside
  \<open>[0, 5]\<close> is answered 400 Bad Request on the first offending field.
\<close>

theorem validatePathfindingRequest_max_transfers:
  assumes "load_config env = Listening cfg"
  shows "(validatePathfindingRequest cfg (body\<lparr>max_transfers := None\<rparr>) = Inr accepted \<longrightarrow>
            validatePathfindingRequest cfg body =
              (case max_transfers body of
                 None \<Rightarrow> Inr accepted
               | Some v \<Rightarrow>
                   (case ToString v of
                      Inl err \<Rightarrow> Inl ValidationFailed
                    | Inr s \<Rightarrow>
                        (case parseInt s of
                           None \<Rightarrow> Inl (BadRequest ''max_transfers'')
                         | Some n \<Rightarrow>
                             if 0 \<le> n \<and> n \<le> 5 then Inr (accepted\<lparr>max_transfers := Some v\<rparr>)
                             else Inl (BadRequest ''max_transfers'')))) \<and>
            (\<forall>n. max_transfers body = Some (JNumber (number_of_int n)) \<and> \<bar>n\<bar> \<le> 2 ^ 53 \<longrightarrow>
                 validatePathfindingRequest cfg body =
                   (if 0 \<le> n \<and> n \<le> 5 then Inr (accepted\<lparr>max_transfers := max_transfers body\<rparr>)
                    else Inl (BadRequest ''max_transfers'')))) \<and>
         (\<forall>v s. max_transfers body = Some v \<and> ToString v = Inr s \<and>
                (case parseInt s of None \<Rightarrow> True | Some n \<Rightarrow> n < 0 \<or> 5 < n) \<longrightarrow>
                (\<exists>field. validatePathfindingRequest cfg body = Inl (BadRequest field))) \<and>
         (\<forall>answer. validatePathfindingRequest cfg body = Inl answer \<longrightarrow>
              find_route env data body = Some answer)"
proof -
  note bound = load_config_Listening(2) [OF assms]
  have main: "validatePathfindingRequest cfg (body\<lparr>max_transfers := None\<rparr>) = Inr accepted \<longrightarrow>
            validatePathfindingRequest cfg body =
              (case max_transfers body of
                 None \<Rightarrow> Inr accepted
               | Some v \<Rightarrow>
                   (case ToString v of
                      Inl err \<Rightarrow> Inl ValidationFailed
                    | Inr s \<Rightarrow>
                        (case parseInt s of
                           None \<Rightarrow> Inl (BadRequest ''max_transfers'')
                         | Some n \<Rightarrow>
                             if 0 \<le> n \<and> n \<le> 5 then Inr (accepted\<lparr>max_transfers := Some v\<rparr>)
                             else Inl (BadRequest ''max_transfers'')))) \<and>
            (\<forall>n. max_transfers body = Some (JNumber (number_of_int n)) \<and> \<bar>n\<bar> \<le> 2 ^ 53 \<longrightarrow>
                 validatePathfindingRequest cfg body =
                   (if 0 \<le> n \<and> n \<le> 5 then Inr (accepted\<lparr>max_transfers := max_transfers body\<rparr>)
                    else Inl (BadRequest ''max_transfers'')))"
  proof
    assume others: "validatePathfindingRequest cfg (body\<lparr>max_transfers := None\<rparr>) = Inr accepted"
    note v = validate_max_transfers_dropped [OF others]
    have first: "validatePathfindingRequest cfg body =
              (case max_transfers body of
                 None \<Rightarrow> Inr accepted
               | Some v \<Rightarrow>
                   (case ToString v of
                      Inl err \<Rightarrow> Inl ValidationFailed
                    | Inr s \<Rightarrow>
                        (case parseInt s of
                           None \<Rightarrow> Inl (BadRequest ''max_transfers'')
                         | Some n \<Rightarrow>
                             if 0 \<le> n \<and> n \<le> 5 then Inr (accepted\<lparr>max_transfers := Some v\<rparr>)
                             else Inl (BadRequest ''max_transfers''))))"
    proof (cases "max_transfers body")
      case None
      then have "body\<lparr>max_transfers := None\<rparr> = body" by simp
      with others None show ?thesis by simp
    next
      case (Some x)
      show ?thesis
        unfolding v
        by (auto simp: Some out_of_range_def bound split: sum.splits option.splits)
    qed
    have second: "\<forall>n. max_transfers body = Some (JNumber (number_of_int n)) \<and> \<bar>n\<bar> \<le> 2 ^ 53 \<longrightarrow>
                 validatePathfindingRequest cfg body =
                   (if 0 \<le> n \<and> n \<le> 5 then Inr (accepted\<lparr>max_transfers := max_transfers body\<rparr>)
                    else Inl (BadRequest ''max_transfers''))"
    proof (intro allI impI)
      fix n
      assume a: "max_transfers body = Some (JNumber (number_of_int n)) \<and> \<bar>n\<bar> \<le> 2 ^ 53"
      have "(2::int) ^ 53 < 10 ^ 21" by simp
      with a have "\<bar>n\<bar> < 10 ^ 21" by linarith
      then have p: "parseInt (Number_toString (number_of_int n)) = Some n"
        by (rule parseInt_number_of_int)
      from a have m: "max_transfers body = Some (JNumber (number_of_int n))" ..
      show "validatePathfindingRequest cfg body =
                  (if 0 \<le> n \<and> n \<le> 5 then Inr (accepted\<lparr>max_transfers := max_transfers body\<rparr>)
                   else Inl (BadRequest ''max_transfers''))"
        unfolding first m by (simp add: p)
    qed
    from first second show "validatePathfindingRequest cfg body =
              (case max_transfers body of
                 None \<Rightarrow> Inr accepted
               | Some v \<Rightarrow>
                   (case ToString v of
                      Inl err \<Rightarrow> Inl ValidationFailed
                    | Inr s \<Rightarrow>
                        (case parseInt s of
                           None \<Rightarrow> Inl (BadRequest ''max_transfers'')
                         | Some n \<Rightarrow>
                             if 0 \<le> n \<and> n \<le> 5 then Inr (accepted\<lparr>max_transfers := Some v\<rparr>)
                             else Inl (BadRequest ''max_transfers'')))) \<and>
            (\<forall>n. max_transfers body = Some (JNumber (number_of_int n)) \<and> \<bar>n\<bar> \<le> 2 ^ 53 \<longrightarrow>
                 validatePathfindingRequest cfg body =
                   (if 0 \<le> n \<and> n \<le> 5 then Inr (accepted\<lparr>max_transfers := max_transfers body\<rparr>)
                    else Inl (BadRequest ''max_transfers'')))" ..
  qed
  have rejected: "\<forall>v s. max_transfers body = Some v \<and> ToString v = Inr s \<and>
                (case parseInt s of None \<Rightarrow> True | Some n \<Rightarrow> n < 0 \<or> 5 < n) \<longrightarrow>
                (\<exists>field. validatePathfindingRequest cfg body = Inl (BadRequest field))"
  proof (intro allI impI)
    fix v s
    assume a: "max_transfers body = Some v \<and> ToString v = Inr s \<and>
                (case parseInt s of None \<Rightarrow> True | Some n \<Rightarrow> n < 0 \<or> 5 < n)"
    then have "out_of_range (max_transfers body) (validation_maxTransfers cfg) = Inr True"
      by (auto simp: out_of_range_def bound split: option.splits)
    then show "\<exists>field. validatePathfindingRequest cfg body = Inl (BadRequest field)"
      by (rule validate_out_of_range)
  qed
  have answered: "\<forall>answer. validatePathfindingRequest cfg body = Inl answer \<longrightarrow>
              find_route env data body = Some answer"
    using find_route_rejected [OF assms] by blast
  from main rejected answered show ?thesis by (intro conjI)
qed

text \<open>
  C2 (as stated): the validation accepts \<open>max_transfers\<close> exactly when it lies in
  \<open>[0, 2]\<close>. The bound it checks is \<open>config.validation.maxTransfers\<close>, which is 5: a request
  with \<open>max_transfers = 3\<close> passes.
\<close>

theorem validatePathfindingRequest_max_transfers_counterexample:
  "load_config unset_environment = Listening (config unset_environment) \<and>
   validatePathfindingRequest (config unset_environment)
     ((plain_request ''X'' ''Z'')\<lparr>max_transfers := Some (JNumber (number_of_int 3))\<rparr>) =
     Inr ((plain_request ''X'' ''Z'')\<lparr>max_transfers := Some (JNumber (number_of_int 3))\<rparr>) \<and>
   \<not> (3::int) \<le> 2"
  by code_simp

theorem validatePathfindingRequest_max_transfers_witness:
  "validatePathfindingRequest (config unset_environment)
     ((plain_request ''X'' ''Z'')\<lparr>max_transfers := Some (JNumber (number_of_int 5))\<rparr>) =
     Inr ((plain_request ''X'' ''Z'')\<lparr>max_transfers := Some (JNumber (number_of_int 5))\<rparr>) \<and>
   validatePathfindingRequest (config unset_environment)
     ((plain_request ''X'' ''Z'')\<lparr>max_transfers := Some (JNumber (number_of_int 6))\<rparr>) =
     Inl (BadRequest ''max_transfers'') \<and>
   find_route unset_environment None
     ((plain_request ''X'' ''Z'')\<lparr>max_transfers := Some (JNumber (number_of_int 6))\<rparr>) =
     Some (BadRequest ''max_transfers'') \<and>
   validatePathfindingRequest (config unset_environment)
     ((plain_request ''X'' ''Z'')\<lparr>max_transfers := Some (JNumber (number_of_int (- 1)))\<rparr>) =
     Inl (BadRequest ''max_transfers'') \<and>
   validatePathfindingRequest (config unset_environment)
     ((plain_request ''X'' ''Z'')\<lparr>max_transfers := Some (JNumber (Finite False 59 1))\<rparr>) =
     Inr ((plain_request ''X'' ''Z'')\<lparr>max_transfers := Some (JNumber (Finite False 59 1))\<rparr>) \<and>
   validatePathfindingRequest (config unset_environment)
     ((plain_request ''X'' ''Z'')\<lparr>max_transfers := Some (JString ''3abc'')\<rparr>) =
     Inr ((plain_request ''X'' ''Z'')\<lparr>max_transfers := Some (JString ''3abc'')\<rparr>) \<and>
   Number_toString (Finite False 1 22) = ''1e+21'' \<and>
   validatePathfindingRequest (config unset_environment)
     ((plain_request ''X'' ''Z'')\<lparr>max_transfers := Some (JNumber (Finite False 1 22))\<rparr>) =
     Inr ((plain_request ''X'' ''Z'')\<lparr>max_transfers := Some (JNumber (Finite False 1 22))\<rparr>) \<and>
   validatePathfindingRequest (config unset_environment)
     ((plain_request ''X'' ''Z'')\<lparr>max_transfers := Some JNull\<rparr>) =
     Inl (BadRequest ''max_transfers'') \<and>
   validatePathfindingRequest (config unset_environment)
     ((plain_request ''X'' ''Z'')\<lparr>max_transfers := Some (JObject [(''toString'', JNull)])\<rparr>) =
     Inl ValidationFailed"
proof -
  let ?cfg = "config unset_environment"
  let ?plain = "plain_request ''X'' ''Z''"
  have v: "validatePathfindingRequest ?cfg (?plain\<lparr>max_transfers := m, max_transfers := None\<rparr>) =
          Inr ?plain" for m
    using plain_request_valid by (simp add: plain_request_def)
  note l = unset_environment_listening
  have e: "Number_toString (Finite False 59 1) = ''5.9''"
      "Number_toString (Finite False 1 22) = ''1e+21''"
      "parseInt ''5.9'' = Some 5" "parseInt ''3abc'' = Some 3" "parseInt ''1e+21'' = Some 1"
      "parseInt ''null'' = None"
    by code_simp+
  have general: "validatePathfindingRequest ?cfg (?plain\<lparr>max_transfers := Some x\<rparr>) =
      (case ToString x of
         Inl err \<Rightarrow> Inl ValidationFailed
       | Inr s \<Rightarrow>
           (case parseInt s of
              None \<Rightarrow> Inl (BadRequest ''max_transfers'')
            | Some n \<Rightarrow>
                if 0 \<le> n \<and> n \<le> 5 then Inr (?plain\<lparr>max_transfers := Some x\<rparr>)
                else Inl (BadRequest ''max_transfers'')))" for x
    using validatePathfindingRequest_max_transfers
            [OF l, of "?plain\<lparr>max_transfers := Some x\<rparr>" ?plain] v [of "Some x"]
    by simp
  have answered: "find_route unset_environment None (?plain\<lparr>max_transfers := Some x\<rparr>) = Some answer"
    if "validatePathfindingRequest ?cfg (?plain\<lparr>max_transfers := Some x\<rparr>) = Inl answer" for x answer
    using validatePathfindingRequest_max_transfers
            [OF l, of "?plain\<lparr>max_transfers := Some x\<rparr>" ?plain None] that
    by blast
  have n: "parseInt (Number_toString (number_of_int 5)) = Some 5"
    "parseInt (Number_toString (number_of_int 6)) = Some 6"
    "parseInt (Number_toString (number_of_int (- 1))) = Some (- 1)"
    by (simp_all add: parseInt_number_of_int)
  have w5: "validatePathfindingRequest ?cfg (?plain\<lparr>max_transfers := Some (JNumber (number_of_int 5))\<rparr>) =
      Inr (?plain\<lparr>max_transfers := Some (JNumber (number_of_int 5))\<rparr>)"
    unfolding general by (simp add: n)
  have w6: "validatePathfindingRequest ?cfg (?plain\<lparr>max_transfers := Some (JNumber (number_of_int 6))\<rparr>) =
      Inl (BadRequest ''max_transfers'')"
    unfolding general by (simp add: n)
  have wm: "validatePathfindingRequest ?cfg (?plain\<lparr>max_transfers := Some (JNumber (number_of_int (- 1)))\<rparr>) =
      Inl (BadRequest ''max_transfers'')"
    unfolding general by (simp add: n)
  have wf: "validatePathfindingRequest ?cfg (?plain\<lparr>max_transfers := Some (JNumber (Finite False 59 1))\<rparr>) =
      Inr (?plain\<lparr>max_transfers := Some (JNumber (Finite False 59 1))\<rparr>)"
    unfolding general by (simp add: e)
  have ws: "validatePathfindingRequest ?cfg (?plain\<lparr>max_transfers := Some (JString ''3abc'')\<rparr>) =
      Inr (?plain\<lparr>max_transfers := Some (JString ''3abc'')\<rparr>)"
    unfolding general by (simp add: e)
  have wb: "validatePathfindingRequest ?cfg (?plain\<lparr>max_transfers := Some (JNumber (Finite False 1 22))\<rparr>) =
      Inr (?plain\<lparr>max_transfers := Some (JNumber (Finite False 1 22))\<rparr>)"
    unfolding general by (simp add: e del: One_nat_def)
  have wn: "validatePathfindingRequest ?cfg (?plain\<lparr>max_transfers := Some JNull\<rparr>) =
      Inl (BadRequest ''max_transfers'')"
    unfolding general by (simp add: e)
  have wo: "validatePathfindingRequest ?cfg (?plain\<lparr>max_transfers := Some (JObject [(''toString'', JNull)])\<rparr>) =
      Inl ValidationFailed"
    unfolding general by simp
  from w5 w6 answered [OF w6] wm wf ws e(2) wb wn wo show ?thesis by (intro conjI)
qed

text \<open>
  C1 (a defect of the code): a request that omits \<open>window_minutes\<close> is to be answered with
  a window of 120 minutes applied and reported. The handler throws at its \<open>require\<close>
  before it selects a window: the request from X to Z below, on a graph that has a path
  from X to Z, passes the validation and is answered 500, with \<open>TIME_WINDOW_MINUTES\<close>
  unset and set to 120 alike. The window the configuration holds is 90 when the variable
  is unset.
\<close>

theorem find_route_default_window:
  "window_minutes (plain_request ''X'' ''Z'') = None \<and>
   validatePathfindingRequest (config unset_environment) (plain_request ''X'' ''Z'') =
     Inr (plain_request ''X'' ''Z'') \<and>
   find_route unset_environment (Some change_snapshot) (plain_request ''X'' ''Z'') =
     Some InternalServerError \<and>
   find_route window_120_environment (Some change_snapshot) (plain_request ''X'' ''Z'') =
     Some InternalServerError \<and>
   algorithm_timeWindowMinutes (config unset_environment) = 90 \<and>
   algorithm_timeWindowMinutes (config window_120_environment) = 120"
proof -
  have "window_minutes (plain_request ''X'' ''Z'') = None"
    by (simp add: plain_request_def)
  moreover note plain_request_valid
  moreover have "find_route unset_environment (Some change_snapshot) (plain_request ''X'' ''Z'') =
      Some InternalServerError"
    using unset_environment_listening plain_request_valid by (rule find_route_accepted)
  moreover have "find_route window_120_environment (Some change_snapshot) (plain_request ''X'' ''Z'') =
      Some InternalServerError"
  proof -
    have "validatePathfindingRequest (config window_120_environment) (plain_request ''X'' ''Z'') =
        Inr (plain_request ''X'' ''Z'')"
      by code_simp
    with window_120_environment_listening show ?thesis by (rule find_route_accepted)
  qed
  moreover have "algorithm_timeWindowMinutes (config unset_environment) = 90"
    by code_simp
  moreover have "algorithm_timeWindowMinutes (config window_120_environment) = 120"
    by code_simp
  ultimately show ?thesis by (intro conjI)
qed

text \<open>
  C3 (a defect of the code): a request that names a station absent from the station
  directory is to be answered 404. The stations X and Z are in the directory of the sample
  graph and Q is not; with Q as the start or as the end the request passes the validation,
  the handler throws at its \<open>require\<close>, and the answer is 500.
\<close>

theorem find_route_unknown_station:
  "''Q'' \<notin> station_directory change_snapshot \<and>
   ''X'' \<in> station_directory change_snapshot \<and>
   ''Z'' \<in> station_directory change_snapshot \<and>
   find_route unset_environment (Some change_snapshot) (plain_request ''Q'' ''Z'') =
     Some InternalServerError \<and>
   find_route unset_environment (Some change_snapshot) (plain_request ''X'' ''Q'') =
     Some InternalServerError"
proof -
  have d: "station_directory change_snapshot = {''X'', ''Y'', ''Z''}"
    by (auto simp: station_directory_def change_snapshot_def change_nodes_def node_station_def)
  have a: "validatePathfindingRequest (config unset_environment) (plain_request ''Q'' ''Z'') =
      Inr (plain_request ''Q'' ''Z'')"
    by code_simp
  have b: "validatePathfindingRequest (config unset_environment) (plain_request ''X'' ''Q'') =
      Inr (plain_request ''X'' ''Q'')"
    by code_simp
  have "''Q'' \<notin> station_directory change_snapshot" "''X'' \<in> station_directory change_snapshot"
    "''Z'' \<in> station_directory change_snapshot"
    unfolding d by simp_all
  moreover note find_route_accepted [OF unset_environment_listening a]
    find_route_accepted [OF unset_environment_listening b]
  ultimately show ?thesis by (intro conjI)
qed

end
